theory Spec2Isabelle
  imports Complex_Main "HOL-Library.Sublist" "HOL-Library.Product_Lexorder"
  "HOL-Library.Multiset"
begin

section \<open>SwarmSim: the demo engine of \<open>script.js\<close>\<close>

text \<open>
  The engine keeps three arrays (\<open>agents\<close>, \<open>foods\<close>, \<open>dangers\<close>), a tick counter and a
  global score. \<open>spawnAll\<close> rebuilds them from six input fields, \<open>stepOnce\<close> advances them
  by one tick, \<open>updateStats\<close> writes the labels of the stats panel.

  Conventions of the embedding:
  \<^item> Positions, velocities, values, severities and scores are exact \<open>real\<close>s: the rounding
    of their arithmetic to doubles is not modelled. \<open>-Infinity\<close> and \<open>Infinity\<close> as the
    start value of a running maximum or minimum are modelled by \<open>None\<close>.
  \<^item> The numbers \<open>spawnAll\<close> computes from the input fields are modelled as JavaScript
    has them, as values of the type \<open>number\<close>: a finite value, \<open>NaN\<close> or an infinity, every
    arithmetic result rounded to the nearest double, since there a rounded value decides
    how many agents are made.
  \<^item> \<open>Math.random()\<close> is the environment's: the sequence of values it returns is the
    parameter \<open>rng\<close> of the environment, and the state counts the draws made so far.
  \<^item> \<open>canvas.width / devicePixelRatio\<close> and \<open>canvas.height / devicePixelRatio\<close> are the
    parameters \<open>width\<close> and \<open>height\<close> of the environment.
  \<^item> Mutation of the arrays and of the objects in them is explicit state passing.
\<close>

subsection \<open>Data\<close>

datatype agent_type = greedy | cautious | explorer

record agent =
  a_x :: real
  a_y :: real
  a_vx :: real
  a_vy :: real
  a_type :: agent_type
  a_wobble :: real
  a_score :: real

record food =
  f_x :: real
  f_y :: real
  f_value :: real
  f_mobile :: bool
  f_vx :: real
  f_vy :: real

record danger =
  d_x :: real
  d_y :: real
  d_severity :: real
  d_mobile :: bool
  d_vx :: real
  d_vy :: real

text \<open>The environment of a run: the values \<open>Math.random()\<close> returns, in order, and the
  size of the canvas in CSS pixels.\<close>

record env =
  rng :: "nat \<Rightarrow> real"
  width :: real
  height :: real

text \<open>The module-level variables of \<open>script.js\<close>, with the number of \<open>Math.random()\<close>
  calls made so far.\<close>

record sim =
  agents :: "agent list"
  foods :: "food list"
  dangers :: "danger list"
  running :: bool
  tick :: nat
  score :: real
  draws :: nat

subsection \<open>JavaScript numbers\<close>

text \<open>A Number: a finite value, \<open>NaN\<close>, \<open>Infinity\<close> or \<open>-Infinity\<close>. The two zeros are one
  value; their sign is never observed by \<open>spawnAll\<close>.\<close>

datatype number = Fin real | NaN | PInf | NInf

definition pow2 :: "int \<Rightarrow> real" where
  "pow2 e = (if 0 \<le> e then 2 ^ nat e else 1 / 2 ^ nat (- e))"

text \<open>The double nearest to a real, ties to even: what JavaScript keeps of the exact
  result of an arithmetic operation. A double has 53 significant bits, an exponent of at
  least -1022 (below, the spacing stays \<open>2 ^ -1074\<close>), and a result of magnitude \<open>2 ^ 1024\<close>
  or more is an infinity.\<close>

definition binade :: "real \<Rightarrow> int" where
  "binade x = max \<lfloor>log 2 \<bar>x\<bar>\<rfloor> (- 1022)"

definition ulp :: "real \<Rightarrow> real" where
  "ulp x = pow2 (binade x - 52)"

definition ties_to_even :: "real \<Rightarrow> int" where
  "ties_to_even y =
     (let n = \<lfloor>y\<rfloor>; r = y - of_int n
      in if r < 1 / 2 then n else if 1 / 2 < r then n + 1 else if even n then n else n + 1)"

definition to_double :: "real \<Rightarrow> number" where
  "to_double x =
     (if x = 0 then Fin 0
      else (let y = of_int (ties_to_even (x / ulp x)) * ulp x
            in if pow2 1024 \<le> \<bar>y\<bar> then (if 0 < x then PInf else NInf) else Fin y))"

text \<open>\<open>a + b\<close>, \<open>a - b\<close>, \<open>a * b\<close> and \<open>a / b\<close> on Numbers. A division by zero is taken as by
  \<open>+0\<close>; \<open>spawnAll\<close> divides by a total that is never zero.\<close>

fun num_add :: "number \<Rightarrow> number \<Rightarrow> number" where
  "num_add (Fin a) (Fin b) = to_double (a + b)"
| "num_add NaN b = NaN"
| "num_add a NaN = NaN"
| "num_add PInf NInf = NaN"
| "num_add NInf PInf = NaN"
| "num_add PInf b = PInf"
| "num_add a PInf = PInf"
| "num_add NInf b = NInf"
| "num_add a NInf = NInf"

fun num_neg :: "number \<Rightarrow> number" where
  "num_neg (Fin a) = Fin (- a)"
| "num_neg NaN = NaN"
| "num_neg PInf = NInf"
| "num_neg NInf = PInf"

definition num_sub :: "number \<Rightarrow> number \<Rightarrow> number" where
  "num_sub a b = num_add a (num_neg b)"

fun num_mul :: "number \<Rightarrow> number \<Rightarrow> number" where
  "num_mul (Fin a) (Fin b) = to_double (a * b)"
| "num_mul NaN b = NaN"
| "num_mul a NaN = NaN"
| "num_mul PInf (Fin b) = (if b = 0 then NaN else if 0 < b then PInf else NInf)"
| "num_mul NInf (Fin b) = (if b = 0 then NaN else if 0 < b then NInf else PInf)"
| "num_mul (Fin a) PInf = (if a = 0 then NaN else if 0 < a then PInf else NInf)"
| "num_mul (Fin a) NInf = (if a = 0 then NaN else if 0 < a then NInf else PInf)"
| "num_mul PInf PInf = PInf"
| "num_mul NInf NInf = PInf"
| "num_mul PInf NInf = NInf"
| "num_mul NInf PInf = NInf"

fun num_div :: "number \<Rightarrow> number \<Rightarrow> number" where
  "num_div (Fin a) (Fin b) =
     (if b = 0 then (if a = 0 then NaN else if 0 < a then PInf else NInf)
      else to_double (a / b))"
| "num_div NaN b = NaN"
| "num_div a NaN = NaN"
| "num_div (Fin a) PInf = Fin 0"
| "num_div (Fin a) NInf = Fin 0"
| "num_div PInf (Fin b) = (if 0 \<le> b then PInf else NInf)"
| "num_div NInf (Fin b) = (if 0 \<le> b then NInf else PInf)"
| "num_div PInf b = NaN"
| "num_div NInf b = NaN"

text \<open>\<open>Math.floor\<close>, \<open>Math.round\<close> (halves go up) and \<open>Math.max\<close> of two Numbers.\<close>

fun Math_floor :: "number \<Rightarrow> number" where
  "Math_floor (Fin a) = Fin (of_int \<lfloor>a\<rfloor>)"
| "Math_floor a = a"

fun Math_round :: "number \<Rightarrow> number" where
  "Math_round (Fin a) = Fin (of_int (round a))"
| "Math_round a = a"

fun Math_max :: "number \<Rightarrow> number \<Rightarrow> number" where
  "Math_max NaN b = NaN"
| "Math_max a NaN = NaN"
| "Math_max PInf b = PInf"
| "Math_max a PInf = PInf"
| "Math_max NInf b = b"
| "Math_max a NInf = a"
| "Math_max (Fin a) (Fin b) = Fin (max a b)"

text \<open>\<open>v || d\<close> on a Number: \<open>d\<close> when \<open>v\<close> is \<open>NaN\<close> or a zero.\<close>

definition or_default :: "number \<Rightarrow> number \<Rightarrow> number" where
  "or_default v d = (if v = NaN \<or> v = Fin 0 then d else v)"

text \<open>How often the body of \<open>for(let i=0;i<n;i++)\<close> runs: not at all when \<open>n\<close> is \<open>NaN\<close>,
  negative or \<open>-Infinity\<close>; \<open>None\<close>, the loop never ends of itself, when \<open>n\<close> is \<open>Infinity\<close> or
  above \<open>2 ^ 53\<close>, where \<open>i++\<close> no longer changes \<open>i\<close>.\<close>

fun iters :: "number \<Rightarrow> nat option" where
  "iters (Fin n) = (if n \<le> 2 ^ 53 then Some (nat \<lceil>n\<rceil>) else None)"
| "iters NaN = Some 0"
| "iters NInf = Some 0"
| "iters PInf = None"

text \<open>An array holds at most \<open>2 ^ 32 - 1\<close> elements: the \<open>push\<close> that would make it longer
  throws a \<open>RangeError\<close>. (The memory of the engine is not modelled.)\<close>

definition max_length :: nat where
  "max_length = 4294967295"

text \<open>The six input fields after \<open>Number(field.value)\<close>.\<close>

record inputs =
  agentCount :: number
  pGreedy :: number
  pCautious :: number
  pExplorer :: number
  foodCount :: number
  dangerCount :: number

subsection \<open>Utilities\<close>

text \<open>\<open>Math.random()\<close> returns a number in \<open>[0, 1)\<close>: the \<open>k\<close>-th value of the sequence,
  read as \<open>0\<close> where the sequence leaves that interval.\<close>

definition Math_random :: "env \<Rightarrow> nat \<Rightarrow> real" where
  "Math_random E k = (if 0 \<le> rng E k \<and> rng E k < 1 then rng E k else 0)"

text \<open>\<open>const rand = (min,max) => Math.random()*(max-min)+min\<close>, on the \<open>k\<close>-th draw.\<close>

definition rand :: "env \<Rightarrow> nat \<Rightarrow> real \<Rightarrow> real \<Rightarrow> real" where
  "rand E k mn mx = Math_random E k * (mx - mn) + mn"

definition clamp :: "real \<Rightarrow> real \<Rightarrow> real \<Rightarrow> real" where
  "clamp v a b = max a (min b v)"

definition hypot :: "real \<Rightarrow> real \<Rightarrow> real" where
  "hypot dx dy = sqrt (dx * dx + dy * dy)"

text \<open>\<open>dist(a,b)\<close> on the coordinates of two objects.\<close>

definition dist_pt :: "real \<times> real \<Rightarrow> real \<times> real \<Rightarrow> real" where
  "dist_pt a b = (let dx = fst a - fst b; dy = snd a - snd b in hypot dx dy)"

definition a_pos :: "agent \<Rightarrow> real \<times> real" where
  "a_pos a = (a_x a, a_y a)"

definition f_pos :: "food \<Rightarrow> real \<times> real" where
  "f_pos f = (f_x f, f_y f)"

definition d_pos :: "danger \<Rightarrow> real \<times> real" where
  "d_pos d = (d_x d, d_y d)"

subsection \<open>Spawning\<close>

definition newAgent :: "env \<Rightarrow> nat \<Rightarrow> agent_type \<Rightarrow> agent" where
  "newAgent E k ty =
     \<lparr> a_x = rand E k 40 (width E - 40),
       a_y = rand E (k + 1) 40 (height E - 40),
       a_vx = rand E (k + 2) (- 0.8) 0.8,
       a_vy = rand E (k + 3) (- 0.8) 0.8,
       a_type = ty,
       a_wobble = Math_random E (k + 4) * 10,
       a_score = 0 \<rparr>"

text \<open>\<open>for(let i=0;i<n;i++) agents.push(newAgent(type))\<close>: five draws for each agent.\<close>

definition pushAgents :: "env \<Rightarrow> agent_type \<Rightarrow> nat \<Rightarrow> agent list \<times> nat \<Rightarrow> agent list \<times> nat" where
  "pushAgents E ty n st =
     fold (\<lambda>i (as, k). (as @ [newAgent E k ty], k + 5)) [0..<n] st"

definition tier :: "nat \<Rightarrow> real" where
  "tier i = (if i mod 3 = 0 then 10 else if i mod 3 = 1 then 6 else 2)"

definition newFood :: "env \<Rightarrow> nat \<Rightarrow> nat \<Rightarrow> food" where
  "newFood E k i =
     \<lparr> f_x = rand E k 40 (width E - 40),
       f_y = rand E (k + 1) 40 (height E - 40),
       f_value = tier i,
       f_mobile = (Math_random E (k + 2) < 0.3),
       f_vx = rand E (k + 3) (- 0.5) 0.5,
       f_vy = rand E (k + 4) (- 0.5) 0.5 \<rparr>"

definition newDanger :: "env \<Rightarrow> nat \<Rightarrow> nat \<Rightarrow> danger" where
  "newDanger E k i =
     \<lparr> d_x = rand E k 40 (width E - 40),
       d_y = rand E (k + 1) 40 (height E - 40),
       d_severity = tier i,
       d_mobile = (Math_random E (k + 2) < 0.4),
       d_vx = rand E (k + 3) (- 0.6) 0.6,
       d_vy = rand E (k + 4) (- 0.6) 0.6 \<rparr>"

definition pushFoods :: "env \<Rightarrow> nat \<Rightarrow> food list \<times> nat \<Rightarrow> food list \<times> nat" where
  "pushFoods E n st = fold (\<lambda>i (fs, k). (fs @ [newFood E k i], k + 5)) [0..<n] st"

definition pushDangers :: "env \<Rightarrow> nat \<Rightarrow> danger list \<times> nat \<Rightarrow> danger list \<times> nat" where
  "pushDangers E n st = fold (\<lambda>i (ds, k). (ds @ [newDanger E k i], k + 5)) [0..<n] st"

text \<open>The numbers \<open>spawnAll\<close> derives from the input fields: \<open>N\<close>, the total of the
  proportions, and the bounds \<open>g\<close>, \<open>c\<close>, \<open>e\<close>, \<open>foodN\<close> and \<open>dangerN\<close> of its five loops.\<close>

definition agentN :: "inputs \<Rightarrow> number" where
  "agentN I = Math_max (Fin 1) (Math_floor (or_default (agentCount I) (Fin 5)))"

definition mixTotal :: "inputs \<Rightarrow> number" where
  "mixTotal I =
     (let gp = or_default (pGreedy I) (Fin 0); cp = or_default (pCautious I) (Fin 0);
          ep = or_default (pExplorer I) (Fin 0)
      in or_default (num_add (num_add gp cp) ep) (Fin 100))"

definition greedyN :: "inputs \<Rightarrow> number" where
  "greedyN I =
     Math_round (num_mul (num_div (or_default (pGreedy I) (Fin 0)) (mixTotal I)) (agentN I))"

definition cautiousN :: "inputs \<Rightarrow> number" where
  "cautiousN I =
     Math_round (num_mul (num_div (or_default (pCautious I) (Fin 0)) (mixTotal I)) (agentN I))"

definition explorerN :: "inputs \<Rightarrow> number" where
  "explorerN I = Math_max (Fin 0) (num_sub (num_sub (agentN I) (greedyN I)) (cautiousN I))"

definition foodN :: "inputs \<Rightarrow> number" where
  "foodN I = Math_max (Fin 0) (Math_floor (or_default (foodCount I) (Fin 9)))"

definition dangerN :: "inputs \<Rightarrow> number" where
  "dangerN I = Math_max (Fin 0) (Math_floor (or_default (dangerCount I) (Fin 5)))"

text \<open>The state \<open>spawnAll\<close> leaves when its five loops run \<open>g\<close>, \<open>c\<close>, \<open>e\<close>, \<open>f\<close> and \<open>d\<close>
  times: \<open>running\<close> is as it was, everything else is reset, and the draws go on from where
  the sequence stands.\<close>

definition spawned :: "env \<Rightarrow> nat \<Rightarrow> nat \<Rightarrow> nat \<Rightarrow> nat \<Rightarrow> nat \<Rightarrow> sim \<Rightarrow> sim" where
  "spawned E g c e f d s =
     (let (as1, k1) = pushAgents E greedy g ([], draws s);
          (as2, k2) = pushAgents E cautious c (as1, k1);
          (as3, k3) = pushAgents E explorer e (as2, k2);
          (fs, k4) = pushFoods E f ([], k3);
          (ds, k5) = pushDangers E d ([], k4)
      in s\<lparr> agents := as3, foods := fs, dangers := ds, tick := 0, score := 0, draws := k5 \<rparr>)"

text \<open>\<open>spawnAll\<close>: \<open>None\<close>, it does not return, when one of its loops has no end or an array
  would grow beyond its greatest length. It has no other way out than its last line.\<close>

definition spawnAll :: "env \<Rightarrow> inputs \<Rightarrow> sim \<Rightarrow> sim option" where
  "spawnAll E I s =
     (case iters (greedyN I) of None \<Rightarrow> None | Some g \<Rightarrow>
      case iters (cautiousN I) of None \<Rightarrow> None | Some c \<Rightarrow>
      case iters (explorerN I) of None \<Rightarrow> None | Some e \<Rightarrow>
      case iters (foodN I) of None \<Rightarrow> None | Some f \<Rightarrow>
      case iters (dangerN I) of None \<Rightarrow> None | Some d \<Rightarrow>
      if g + c + e \<le> max_length \<and> f \<le> max_length \<and> d \<le> max_length
      then Some (spawned E g c e f d s) else None)"

subsection \<open>One tick\<close>

text \<open>A mobile item advances by its velocity; where the new coordinate is outside
  \<open>[20, width - 20]\<close> (\<open>[20, height - 20]\<close>) the velocity component changes sign. The
  position itself is not clamped.\<close>

definition moveFood :: "env \<Rightarrow> food \<Rightarrow> food" where
  "moveFood E f =
     (if f_mobile f then
        (let x = f_x f + f_vx f; y = f_y f + f_vy f;
             vx = (if x < 20 \<or> x > width E - 20 then f_vx f * - 1 else f_vx f);
             vy = (if y < 20 \<or> y > height E - 20 then f_vy f * - 1 else f_vy f)
         in f\<lparr> f_x := x, f_y := y, f_vx := vx, f_vy := vy \<rparr>)
      else f)"

definition moveDanger :: "env \<Rightarrow> danger \<Rightarrow> danger" where
  "moveDanger E d =
     (if d_mobile d then
        (let x = d_x d + d_vx d; y = d_y d + d_vy d;
             vx = (if x < 20 \<or> x > width E - 20 then d_vx d * - 1 else d_vx d);
             vy = (if y < 20 \<or> y > height E - 20 then d_vy d * - 1 else d_vy d)
         in d\<lparr> d_x := x, d_y := y, d_vx := vx, d_vy := vy \<rparr>)
      else d)"

text \<open>Greedy: \<open>best\<close> and \<open>bestScore\<close> after the loop over \<open>foods\<close>; \<open>None\<close> is
  \<open>best = null, bestScore = -Infinity\<close>. The comparison is strict, so the first food
  of the highest score wins.\<close>

definition foodScore :: "agent \<Rightarrow> food \<Rightarrow> real" where
  "foodScore a f = f_value f - dist_pt (a_pos a) (f_pos f) * 0.02"

definition seekBest :: "agent \<Rightarrow> food list \<Rightarrow> (food \<times> real) option" where
  "seekBest a fs =
     foldl (\<lambda>acc f. let s = foodScore a f in
              (case acc of None \<Rightarrow> Some (f, s)
               | Some (best, bestScore) \<Rightarrow> if s > bestScore then Some (f, s) else acc))
       None fs"

definition steerGreedy :: "agent \<Rightarrow> food list \<Rightarrow> agent" where
  "steerGreedy a fs =
     (case seekBest a fs of
        None \<Rightarrow> a
      | Some (best, bestScore) \<Rightarrow>
          (let dx = f_x best - a_x a; dy = f_y best - a_y a;
               m = (if hypot dx dy = 0 then 1 else hypot dx dy)
           in a\<lparr> a_vx := a_vx a + dx / m * 0.05, a_vy := a_vy a + dy / m * 0.05 \<rparr>))"

text \<open>Cautious: \<open>near\<close> and \<open>nd\<close> after the loop over \<open>dangers\<close>; \<open>None\<close> is
  \<open>near = null, nd = Infinity\<close>. Then, whatever the first step did, a pull toward a food
  chosen by one draw.\<close>

definition nearest :: "agent \<Rightarrow> danger list \<Rightarrow> (danger \<times> real) option" where
  "nearest a ds =
     foldl (\<lambda>acc d. let dd = dist_pt (a_pos a) (d_pos d) in
              (case acc of None \<Rightarrow> Some (d, dd)
               | Some (near, nd) \<Rightarrow> if dd < nd then Some (d, dd) else acc))
       None ds"

definition flee :: "agent \<Rightarrow> danger list \<Rightarrow> agent" where
  "flee a ds =
     (case nearest a ds of
        None \<Rightarrow> a
      | Some (near, nd) \<Rightarrow>
          if nd < 120
          then a\<lparr> a_vx := a_vx a + (a_x a - d_x near) * 0.003,
                  a_vy := a_vy a + (a_y a - d_y near) * 0.003 \<rparr>
          else a)"

definition attract :: "env \<Rightarrow> nat \<Rightarrow> agent \<Rightarrow> food list \<Rightarrow> agent \<times> nat" where
  "attract E k a fs =
     (if fs \<noteq> [] then
        (let any = fs ! nat \<lfloor>Math_random E k * real (length fs)\<rfloor>
         in (a\<lparr> a_vx := a_vx a + (f_x any - a_x a) * 0.0008,
                a_vy := a_vy a + (f_y any - a_y a) * 0.0008 \<rparr>, k + 1))
      else (a, k))"

definition steerCautious :: "env \<Rightarrow> nat \<Rightarrow> agent \<Rightarrow> food list \<Rightarrow> danger list \<Rightarrow> agent \<times> nat" where
  "steerCautious E k a fs ds = attract E k (flee a ds) fs"

definition steerExplorer :: "env \<Rightarrow> nat \<Rightarrow> agent \<Rightarrow> agent \<times> nat" where
  "steerExplorer E k a =
     (a\<lparr> a_vx := a_vx a + rand E k (- 0.02) 0.02,
         a_vy := a_vy a + rand E (k + 1) (- 0.02) 0.02 \<rparr>, k + 2)"

text \<open>\<open>// damp and move\<close>, \<open>// bounds\<close>.\<close>

definition dampMove :: "env \<Rightarrow> agent \<Rightarrow> agent" where
  "dampMove E a =
     (let vx = a_vx a * 0.98; vy = a_vy a * 0.98
      in a\<lparr> a_vx := vx, a_vy := vy,
             a_x := clamp (a_x a + vx) 12 (width E - 12),
             a_y := clamp (a_y a + vy) 12 (height E - 12) \<rparr>)"

text \<open>\<open>// interactions\<close>. The two loops run the index down from \<open>length - 1\<close> to \<open>0\<close>;
  the first argument is the index plus one. \<open>splice(i,1)\<close> is
  \<open>take i xs @ drop (Suc i) xs\<close>. The hazard loop draws once for each hazard in contact,
  and only then.\<close>

definition contactF :: "agent \<Rightarrow> food \<Rightarrow> bool" where
  "contactF a f = (dist_pt (a_pos a) (f_pos f) < 14)"

definition contactD :: "agent \<Rightarrow> danger \<Rightarrow> bool" where
  "contactD a d = (dist_pt (a_pos a) (d_pos d) < 14)"

fun foodLoop :: "nat \<Rightarrow> agent \<times> food list \<times> real \<Rightarrow> agent \<times> food list \<times> real" where
  "foodLoop 0 st = st"
| "foodLoop (Suc i) (a, fs, sc) =
     (if contactF a (fs ! i)
      then foodLoop i (a\<lparr> a_score := a_score a + f_value (fs ! i) \<rparr>,
                       take i fs @ drop (Suc i) fs,
                       sc + f_value (fs ! i))
      else foodLoop i (a, fs, sc))"

fun dangerLoop :: "env \<Rightarrow> nat \<Rightarrow> agent \<times> danger list \<times> real \<times> nat
    \<Rightarrow> agent \<times> danger list \<times> real \<times> nat" where
  "dangerLoop E 0 st = st"
| "dangerLoop E (Suc i) (a, ds, sc, k) =
     (if contactD a (ds ! i)
      then dangerLoop E i (a\<lparr> a_score := a_score a - d_severity (ds ! i) \<rparr>,
                           (if Math_random E k < 0.06 then take i ds @ drop (Suc i) ds else ds),
                           sc - d_severity (ds ! i),
                           k + 1)
      else dangerLoop E i (a, ds, sc, k))"

text \<open>What the agents of one tick share and change: the two arrays, the global score
  and the position in the sequence of draws.\<close>

type_synonym shared = "food list \<times> danger list \<times> real \<times> nat"

definition steer :: "env \<Rightarrow> nat \<Rightarrow> agent \<Rightarrow> food list \<Rightarrow> danger list \<Rightarrow> agent \<times> nat" where
  "steer E k a fs ds =
     (case a_type a of
        greedy \<Rightarrow> (steerGreedy a fs, k)
      | cautious \<Rightarrow> steerCautious E k a fs ds
      | explorer \<Rightarrow> steerExplorer E k a)"

definition agentStep :: "env \<Rightarrow> agent \<Rightarrow> shared \<Rightarrow> agent \<times> shared" where
  "agentStep E a w =
     (let (fs, ds, sc, k) = w;
          (a1, k1) = steer E k a fs ds;
          a2 = dampMove E a1;
          (a3, fs', sc1) = foodLoop (length fs) (a2, fs, sc);
          (a4, ds', sc2, k2) = dangerLoop E (length ds) (a3, ds, sc1, k1)
      in (a4, fs', ds', sc2, k2))"

fun agentsLoop :: "env \<Rightarrow> agent list \<Rightarrow> shared \<Rightarrow> agent list \<times> shared" where
  "agentsLoop E [] w = ([], w)"
| "agentsLoop E (a # as) w =
     (let (a', w1) = agentStep E a w; (as', w2) = agentsLoop E as w1 in (a' # as', w2))"

definition stepOnce :: "env \<Rightarrow> sim \<Rightarrow> sim" where
  "stepOnce E s =
     (let fs = map (moveFood E) (foods s);
          ds = map (moveDanger E) (dangers s);
          (as, fs', ds', sc, k) = agentsLoop E (agents s) (fs, ds, score s, draws s)
      in s\<lparr> agents := as, foods := fs', dangers := ds', score := sc, draws := k,
             tick := tick s + 1 \<rparr>)"

text \<open>The simulation part of \<open>loop()\<close>; drawing and rescheduling are left out.\<close>

definition loop :: "env \<Rightarrow> sim \<Rightarrow> sim" where
  "loop E s =
     (if \<not> running s then s
      else if length (agents s) \<le> 500 then stepOnce E s
      else s\<lparr> tick := tick s + 1 \<rparr>)"

subsection \<open>The stats panel\<close>

text \<open>\<open>String(n)\<close> for an integer: decimal digits, with a leading minus sign for a
  negative one.\<close>

fun digits :: "nat \<Rightarrow> string" where
  "digits n =
     (if n < 10 then [''0123456789'' ! n]
      else digits (n div 10) @ [''0123456789'' ! (n mod 10)])"

declare digits.simps [simp del]

definition String :: "int \<Rightarrow> string" where
  "String i = (if i < 0 then CHR ''-'' # digits (nat (- i)) else digits (nat i))"

record stats =
  modeLabel :: string
  tickLabel :: string
  statAgents :: string
  statFood :: string
  statDanger :: string
  statScore :: string

definition updateStats :: "sim \<Rightarrow> stats" where
  "updateStats s =
     \<lparr> modeLabel = (if length (agents s) \<le> 10 then ''demo'' else ''data''),
       tickLabel = String (int (tick s)),
       statAgents = String (int (length (agents s))),
       statFood = String (int (length (foods s))),
       statDanger = String (int (length (dangers s))),
       statScore = String (max 0 (round (score s))) \<rparr>"

subsection \<open>The message router\<close>

text \<open>Modelled from the spec: \<open>script.js\<close> has no messages and no router; the
  bandwidth-constrained message router of the simulation core is missing from the
  sources. This is the encoded size of a message, a positive number of bits: the spec
  lists an "encoded size in bits", drops a candidate whose size is negative or cannot be
  computed, and wants a budget of zero to deliver nothing and a budget of at least the
  sum of the sizes to deliver everything, which a candidate of no bits could not both
  have.\<close>

typedef bit_size = "{n :: nat. 0 < n}"
  by (rule exI [of _ 1]) simp

text \<open>Modelled from the spec: a message as the data model lists it: sender id, importance
  score, encoded size in bits and creation tick (the payload plays no part in routing and
  is left out).\<close>

record message =
  sender :: nat
  importance :: real
  bits :: bit_size
  created :: nat

text \<open>Modelled from the spec: the number of bits a message costs.\<close>

definition cost :: "message \<Rightarrow> nat" where
  "cost m = Rep_bit_size (bits m)"

text \<open>Modelled from the spec: "sort descending by score with a deterministic tie-break
  (lower sender id first)". The score is "a function of its importance", which the spec
  leaves open: it is the parameter \<open>prio\<close>.\<close>

definition ordered :: "(message \<Rightarrow> real) \<Rightarrow> message list \<Rightarrow> message list" where
  "ordered prio candidates = sort_key (\<lambda>m. (- prio m, sender m)) candidates"

text \<open>Modelled from the spec: "Greedily admit messages in that order, accumulating their
  encoded bit cost, until the next candidate would exceed the remaining budget; remaining
  candidates are dropped for this tick".\<close>

fun admit :: "nat \<Rightarrow> message list \<Rightarrow> message list" where
  "admit remaining [] = []"
| "admit remaining (m # ms) =
     (if cost m > remaining then [] else m # admit (remaining - cost m) ms)"

text \<open>Modelled from the spec: the router of one tick, from the per-tick bit budget and the
  candidates generated in the tick to the messages delivered.\<close>

definition route :: "(message \<Rightarrow> real) \<Rightarrow> nat \<Rightarrow> message list \<Rightarrow> message list" where
  "route prio bandwidth_bits candidates = admit bandwidth_bits (ordered prio candidates)"

subsection \<open>Quantities the properties are stated with\<close>

text \<open>What an agent standing where \<open>a\<close> stands collects from an array of foods, what it
  loses to an array of hazards, and how many hazards it is in contact with (one draw
  each).\<close>

definition gain :: "agent \<Rightarrow> food list \<Rightarrow> real" where
  "gain a fs = sum_list (map f_value (filter (contactF a) fs))"

definition loss :: "agent \<Rightarrow> danger list \<Rightarrow> real" where
  "loss a ds = sum_list (map d_severity (filter (contactD a) ds))"

definition hits :: "agent \<Rightarrow> danger list \<Rightarrow> nat" where
  "hits a ds = length (filter (contactD a) ds)"

text \<open>The arrays, the global score and the position in the draws as the \<open>i\<close>-th agent of
  a tick finds them: after the items have moved and the agents before it have acted.\<close>

definition sharedBefore :: "env \<Rightarrow> sim \<Rightarrow> nat \<Rightarrow> shared" where
  "sharedBefore E s i =
     snd (agentsLoop E (take i (agents s))
            (map (moveFood E) (foods s), map (moveDanger E) (dangers s), score s, draws s))"

text \<open>The agent after steering, damping, moving and clamping, before its interactions;
  the region agents are clamped to.\<close>

definition moved :: "env \<Rightarrow> nat \<Rightarrow> agent \<Rightarrow> food list \<Rightarrow> danger list \<Rightarrow> agent" where
  "moved E k a fs ds = dampMove E (fst (steer E k a fs ds))"

definition inside :: "env \<Rightarrow> agent \<Rightarrow> bool" where
  "inside E a = (12 \<le> a_x a \<and> a_x a \<le> width E - 12 \<and> 12 \<le> a_y a \<and> a_y a \<le> height E - 12)"

text \<open>A coordinate \<open>x\<close> with velocity \<open>v\<close> is on course between the lines \<open>20\<close> and
  \<open>hi - 20\<close>: between them, or past one of them by less than one step and heading back.\<close>

definition bouncing :: "real \<Rightarrow> real \<Rightarrow> real \<Rightarrow> bool" where
  "bouncing hi x v =
     (\<bar>v\<bar> \<le> 1 \<and> \<bar>v\<bar> \<le> hi - 40
      \<and> (20 \<le> x \<and> x \<le> hi - 20
         \<or> x < 20 \<and> 0 < v \<and> 20 \<le> x + v
         \<or> hi - 20 < x \<and> v < 0 \<and> x + v \<le> hi - 20))"

definition foodOK :: "env \<Rightarrow> food \<Rightarrow> bool" where
  "foodOK E f = (bouncing (width E) (f_x f) (f_vx f) \<and> bouncing (height E) (f_y f) (f_vy f))"

definition dangerOK :: "env \<Rightarrow> danger \<Rightarrow> bool" where
  "dangerOK E d = (bouncing (width E) (d_x d) (d_vx d) \<and> bouncing (height E) (d_y d) (d_vy d))"

text \<open>The environment after the canvas has been resized: \<open>script.js\<close> reads the size of the
  canvas anew wherever it uses it.\<close>

definition resized :: "env \<Rightarrow> real \<times> real \<Rightarrow> env" where
  "resized E wh = E\<lparr> width := fst wh, height := snd wh \<rparr>"

text \<open>A run: \<open>spawnAll\<close> on the canvas of the environment, the start button, and one turn of
  \<open>loop\<close> for each entry of \<open>sizes\<close>, the size of the canvas at that turn. \<open>None\<close> when
  \<open>spawnAll\<close> does not return.\<close>

definition turns :: "env \<Rightarrow> (real \<times> real) list \<Rightarrow> sim \<Rightarrow> sim" where
  "turns E sizes s = foldl (\<lambda>st wh. loop (resized E wh) st) s sizes"

definition run :: "env \<Rightarrow> inputs \<Rightarrow> sim \<Rightarrow> (real \<times> real) list \<Rightarrow> sim option" where
  "run E I s sizes = map_option (\<lambda>s0. turns E sizes (s0\<lparr> running := True \<rparr>)) (spawnAll E I s)"

text \<open>Two environments return the same first \<open>n\<close> draws.\<close>

definition same_draws :: "nat \<Rightarrow> env \<Rightarrow> env \<Rightarrow> bool" where
  "same_draws n E1 E2 = (\<forall>k < n. Math_random E1 k = Math_random E2 k)"

subsection \<open>Example data\<close>

text \<open>A canvas of 800 by 360 pixels on which every draw returns one half, an agent at
  rest at \<open>(100, 100)\<close>, and immobile items.\<close>

definition demo_env :: env where
  "demo_env = \<lparr> rng = (\<lambda>k. 1 / 2), width = 800, height = 360 \<rparr>"

definition demo_agent :: agent where
  "demo_agent = \<lparr> a_x = 100, a_y = 100, a_vx = 0, a_vy = 0, a_type = greedy,
                   a_wobble = 0, a_score = 0 \<rparr>"

definition demo_food :: "real \<Rightarrow> real \<Rightarrow> real \<Rightarrow> food" where
  "demo_food x y v = \<lparr> f_x = x, f_y = y, f_value = v, f_mobile = False, f_vx = 0, f_vy = 0 \<rparr>"

definition demo_danger :: "real \<Rightarrow> real \<Rightarrow> real \<Rightarrow> danger" where
  "demo_danger x y v = \<lparr> d_x = x, d_y = y, d_severity = v, d_mobile = False, d_vx = 0, d_vy = 0 \<rparr>"

definition demo_sim :: sim where
  "demo_sim = \<lparr> agents = [demo_agent], foods = [], dangers = [demo_danger 100 110 6],
                 running = True, tick = 0, score = 0, draws = 0 \<rparr>"


text \<open>Input fields that ask for one greedy agent, one food and one hazard.\<close>

definition demo_inputs :: inputs where
  "demo_inputs = \<lparr> agentCount = Fin 1, pGreedy = Fin 100, pCautious = Fin 0,
                    pExplorer = Fin 0, foodCount = Fin 1, dangerCount = Fin 1 \<rparr>"

text \<open>The example canvas on which every draw returns zero.\<close>

definition zero_env :: env where
  "zero_env = \<lparr> rng = (\<lambda>k. 0), width = 800, height = 360 \<rparr>"

text \<open>The example canvas on which the first sixteen draws return one half and the later
  ones zero.\<close>

definition late_env :: env where
  "late_env = \<lparr> rng = (\<lambda>k. if k < 16 then 1 / 2 else 0), width = 800, height = 360 \<rparr>"

text \<open>The example canvas with draws that, for the example inputs, put the agent at the left
  and make the food mobile, with velocity \<open>(0.25, 0)\<close>.\<close>

definition mobile_env :: env where
  "mobile_env =
     \<lparr> rng = (\<lambda>k. if k = 0 then 0 else if k = 7 then 1 / 10 else if k = 8 then 3 / 4 else 1 / 2),
       width = 800, height = 360 \<rparr>"

text \<open>Input fields with a negative number of agents, foods and hazards and proportions
  that are not numbers.\<close>

definition bad_inputs :: inputs where
  "bad_inputs = \<lparr> agentCount = Fin (- 3), pGreedy = NaN, pCautious = NaN,
                   pExplorer = NaN, foodCount = Fin (- 2), dangerCount = Fin (- 1) \<rparr>"

text \<open>A running state with 501 agents at \<open>(100, 100)\<close> and a mobile food at the same place.\<close>

definition crowd :: sim where
  "crowd = \<lparr> agents = replicate 501 demo_agent,
              foods = [(demo_food 100 100 10)\<lparr> f_mobile := True, f_vx := 1 / 4 \<rparr>],
              dangers = [], running = True, tick = 0, score = 0, draws = 0 \<rparr>"

text \<open>A message of sender \<open>s\<close>, importance \<open>i\<close> and \<open>b\<close> bits, for a positive \<open>b\<close>.\<close>

definition demo_msg :: "nat \<Rightarrow> real \<Rightarrow> nat \<Rightarrow> message" where
  "demo_msg s i b = \<lparr> sender = s, importance = i, bits = Abs_bit_size b, created = 0 \<rparr>"

section \<open>Properties\<close>

subsection \<open>The spawning loops\<close>

lemma pushAgents_0: "pushAgents E ty 0 st = st"
  by (simp add: pushAgents_def)

lemma pushFoods_0: "pushFoods E 0 st = st"
  by (simp add: pushFoods_def)

lemma pushDangers_0: "pushDangers E 0 st = st"
  by (simp add: pushDangers_def)

lemma pushAgents_Suc:
  "pushAgents E ty (Suc n) st =
     (case pushAgents E ty n st of (as, k) \<Rightarrow> (as @ [newAgent E k ty], k + 5))"
  by (simp add: pushAgents_def)

lemma pushFoods_Suc:
  "pushFoods E (Suc n) st =
     (case pushFoods E n st of (fs, k) \<Rightarrow> (fs @ [newFood E k n], k + 5))"
  by (simp add: pushFoods_def)

lemma pushDangers_Suc:
  "pushDangers E (Suc n) st =
     (case pushDangers E n st of (ds, k) \<Rightarrow> (ds @ [newDanger E k n], k + 5))"
  by (simp add: pushDangers_def)

lemma pushAgents_scores:
  assumes "\<forall>a \<in> set (fst st). a_score a = 0"
  shows "\<forall>a \<in> set (fst (pushAgents E ty n st)). a_score a = 0"
proof (induction n)
  case 0
  then show ?case using assms by (simp add: pushAgents_0)
next
  case (Suc n)
  have "a_score (newAgent E k ty) = 0" for k by (simp add: newAgent_def)
  with Suc show ?case by (auto simp: pushAgents_Suc split_beta)
qed

lemma spawned_scores:
  "(\<forall>a \<in> set (agents (spawned E g c e f d s)). a_score a = 0) \<and> score (spawned E g c e f d s) = 0"
proof -
  have "\<forall>a \<in> set (fst (pushAgents E explorer e
            (pushAgents E cautious c (pushAgents E greedy g ([], draws s))))). a_score a = 0"
    by (intro pushAgents_scores) simp
  then show ?thesis by (simp add: spawned_def Let_def split_beta)
qed

lemma spawnAll_Some:
  assumes "spawnAll E I s = Some s'"
  obtains g c e f d where "iters (greedyN I) = Some g" and "iters (cautiousN I) = Some c"
    and "iters (explorerN I) = Some e" and "iters (foodN I) = Some f"
    and "iters (dangerN I) = Some d" and "g + c + e \<le> max_length" and "f \<le> max_length"
    and "d \<le> max_length" and "s' = spawned E g c e f d s"
  using assms unfolding spawnAll_def by (auto split: option.splits if_splits)

subsection \<open>The two interaction loops\<close>

lemma contactF_score [simp]: "contactF (a\<lparr>a_score := v\<rparr>) = contactF a"
  by (rule ext) (simp add: contactF_def a_pos_def)

lemma contactD_score [simp]: "contactD (a\<lparr>a_score := v\<rparr>) = contactD a"
  by (rule ext) (simp add: contactD_def a_pos_def)

lemma gain_score [simp]: "gain (a\<lparr>a_score := v\<rparr>) fs = gain a fs"
  by (simp add: gain_def)

lemma loss_score [simp]: "loss (a\<lparr>a_score := v\<rparr>) ds = loss a ds"
  by (simp add: loss_def)

lemma foodLoop_eq:
  "n \<le> length fs \<Longrightarrow>
   foodLoop n (a, fs, sc) =
     (a\<lparr>a_score := a_score a + gain a (take n fs)\<rparr>,
      filter (\<lambda>f. \<not> contactF a f) (take n fs) @ drop n fs,
      sc + gain a (take n fs))"
proof (induction n arbitrary: a fs sc)
  case 0
  then show ?case by (simp add: gain_def)
next
  case (Suc n)
  then have n: "n < length fs" by simp
  have tk: "take (Suc n) fs = take n fs @ [fs ! n]"
    using n by (simp add: take_Suc_conv_app_nth)
  have dr: "drop n fs = fs ! n # drop (Suc n) fs"
    using n by (simp add: Cons_nth_drop_Suc)
  show ?case
  proof (cases "contactF a (fs ! n)")
    case True
    have len: "n \<le> length (take n fs @ drop (Suc n) fs)" using n by simp
    show ?thesis
      using True n Suc.IH [OF len] by (simp add: tk gain_def)
  next
    case False
    have len: "n \<le> length fs" using n by simp
    show ?thesis
      using False Suc.IH [OF len] by (simp add: tk dr gain_def)
  qed
qed


lemma hits_score [simp]: "hits (a\<lparr>a_score := v\<rparr>) ds = hits a ds"
  by (simp add: hits_def)

lemma draws_shift:
  assumes "\<forall>j < Suc h. P (k + j)"
  shows "P k" and "\<forall>j < h. P (k + 1 + j)"
proof -
  show "P k" using assms [rule_format, of 0] by simp
  show "\<forall>j < h. P (k + 1 + j)"
  proof (intro allI impI)
    fix j assume "j < h"
    then show "P (k + 1 + j)" using assms [rule_format, of "Suc j"] by simp
  qed
qed

lemma dangerLoop_eq:
  "n \<le> length ds \<Longrightarrow>
   \<exists>pre. dangerLoop E n (a, ds, sc, k) =
           (a\<lparr>a_score := a_score a - loss a (take n ds)\<rparr>, pre @ drop n ds,
            sc - loss a (take n ds), k + hits a (take n ds))
       \<and> subseq pre (take n ds)
       \<and> filter (\<lambda>d. \<not> contactD a d) pre = filter (\<lambda>d. \<not> contactD a d) (take n ds)
       \<and> ((\<forall>j < hits a (take n ds). \<not> Math_random E (k + j) < 0.06) \<longrightarrow> pre = take n ds)
       \<and> ((\<forall>j < hits a (take n ds). Math_random E (k + j) < 0.06) \<longrightarrow>
            pre = filter (\<lambda>d. \<not> contactD a d) (take n ds))"
proof (induction n arbitrary: a ds sc k)
  case 0
  then show ?case by (simp add: loss_def hits_def)
next
  case (Suc n)
  then have n: "n < length ds" by simp
  have tk: "take (Suc n) ds = take n ds @ [ds ! n]"
    using n by (simp add: take_Suc_conv_app_nth)
  have dr: "drop n ds = ds ! n # drop (Suc n) ds"
    using n by (simp add: Cons_nth_drop_Suc)
  show ?case
  proof (cases "contactD a (ds ! n)")
    case False
    have len: "n \<le> length ds" using n by simp
    from Suc.IH [where ds = ds and a = a and sc = sc and k = k, OF len] obtain pre where
      eq: "dangerLoop E n (a, ds, sc, k) =
           (a\<lparr>a_score := a_score a - loss a (take n ds)\<rparr>, pre @ drop n ds,
            sc - loss a (take n ds), k + hits a (take n ds))"
      and sub: "subseq pre (take n ds)"
      and keep: "filter (\<lambda>d. \<not> contactD a d) pre = filter (\<lambda>d. \<not> contactD a d) (take n ds)"
      and hi: "(\<forall>j < hits a (take n ds). \<not> Math_random E (k + j) < 0.06) \<longrightarrow> pre = take n ds"
      and lo: "(\<forall>j < hits a (take n ds). Math_random E (k + j) < 0.06) \<longrightarrow>
            pre = filter (\<lambda>d. \<not> contactD a d) (take n ds)"
      by blast
    have L: "loss a (take n ds @ [ds ! n]) = loss a (take n ds)"
      and H: "hits a (take n ds @ [ds ! n]) = hits a (take n ds)"
      using False by (simp_all add: loss_def hits_def)
    have "dangerLoop E (Suc n) (a, ds, sc, k) =
           (a\<lparr>a_score := a_score a - loss a (take (Suc n) ds)\<rparr>, (pre @ [ds ! n]) @ drop (Suc n) ds,
            sc - loss a (take (Suc n) ds), k + hits a (take (Suc n) ds))"
      using False eq unfolding tk by (simp add: L H dr)
    moreover have "subseq (pre @ [ds ! n]) (take (Suc n) ds)"
      using sub by (simp add: tk)
    moreover have "filter (\<lambda>d. \<not> contactD a d) (pre @ [ds ! n])
        = filter (\<lambda>d. \<not> contactD a d) (take (Suc n) ds)"
      using keep by (simp add: tk)
    moreover have "(\<forall>j < hits a (take (Suc n) ds). \<not> Math_random E (k + j) < 0.06)
        \<longrightarrow> pre @ [ds ! n] = take (Suc n) ds"
      using hi unfolding tk H by simp
    moreover have "(\<forall>j < hits a (take (Suc n) ds). Math_random E (k + j) < 0.06)
        \<longrightarrow> pre @ [ds ! n] = filter (\<lambda>d. \<not> contactD a d) (take (Suc n) ds)"
      using lo False unfolding tk H by simp
    ultimately show ?thesis by blast
  next
    case True
    let ?a1 = "a\<lparr>a_score := a_score a - d_severity (ds ! n)\<rparr>"
    let ?ds1 = "if Math_random E k < 0.06 then take n ds @ drop (Suc n) ds else ds"
    have len: "n \<le> length ?ds1" using n by auto
    have tk1: "take n ?ds1 = take n ds" using n by simp
    from Suc.IH [where ds = ?ds1 and a = ?a1 and sc = "sc - d_severity (ds ! n)" and k = "k + 1", OF len] obtain pre where
      eq: "dangerLoop E n (?a1, ?ds1, sc - d_severity (ds ! n), k + 1) =
           (?a1\<lparr>a_score := a_score ?a1 - loss a (take n ds)\<rparr>, pre @ drop n ?ds1,
            sc - d_severity (ds ! n) - loss a (take n ds), k + 1 + hits a (take n ds))"
      and sub: "subseq pre (take n ds)"
      and keep: "filter (\<lambda>d. \<not> contactD a d) pre = filter (\<lambda>d. \<not> contactD a d) (take n ds)"
      and hi: "(\<forall>j < hits a (take n ds). \<not> Math_random E (k + 1 + j) < 0.06) \<longrightarrow> pre = take n ds"
      and lo: "(\<forall>j < hits a (take n ds). Math_random E (k + 1 + j) < 0.06) \<longrightarrow>
            pre = filter (\<lambda>d. \<not> contactD a d) (take n ds)"
      unfolding tk1 by (auto simp: )
    have L: "loss a (take n ds @ [ds ! n]) = loss a (take n ds) + d_severity (ds ! n)"
      and H: "hits a (take n ds @ [ds ! n]) = Suc (hits a (take n ds))"
      using True by (simp_all add: loss_def hits_def)
    note hiS = draws_shift [where P = "\<lambda>i. \<not> Math_random E i < 0.06" and k = k]
    note loS = draws_shift [where P = "\<lambda>i. Math_random E i < 0.06" and k = k]
    show ?thesis
    proof (cases "Math_random E k < 0.06")
      case rem: True
      have "dangerLoop E (Suc n) (a, ds, sc, k) =
           (a\<lparr>a_score := a_score a - loss a (take (Suc n) ds)\<rparr>, pre @ drop (Suc n) ds,
            sc - loss a (take (Suc n) ds), k + hits a (take (Suc n) ds))"
        using True rem eq n unfolding tk by (simp add: L H algebra_simps)
      moreover have "subseq pre (take (Suc n) ds)"
        using sub by (simp add: tk subseq_rev_drop_many)
      moreover have "filter (\<lambda>d. \<not> contactD a d) pre
          = filter (\<lambda>d. \<not> contactD a d) (take (Suc n) ds)"
        using keep True by (simp add: tk)
      moreover have "(\<forall>j < hits a (take (Suc n) ds). \<not> Math_random E (k + j) < 0.06)
          \<longrightarrow> pre = take (Suc n) ds"
        using rem hiS(1) unfolding tk H by blast
      moreover have "(\<forall>j < hits a (take (Suc n) ds). Math_random E (k + j) < 0.06)
          \<longrightarrow> pre = filter (\<lambda>d. \<not> contactD a d) (take (Suc n) ds)"
        using lo True loS(2) unfolding tk H by simp
      ultimately show ?thesis by blast
    next
      case kept: False
      have "dangerLoop E (Suc n) (a, ds, sc, k) =
           (a\<lparr>a_score := a_score a - loss a (take (Suc n) ds)\<rparr>, (pre @ [ds ! n]) @ drop (Suc n) ds,
            sc - loss a (take (Suc n) ds), k + hits a (take (Suc n) ds))"
        using True kept eq n unfolding tk by (simp add: L H dr algebra_simps)
      moreover have "subseq (pre @ [ds ! n]) (take (Suc n) ds)"
        using sub by (simp add: tk)
      moreover have "filter (\<lambda>d. \<not> contactD a d) (pre @ [ds ! n])
          = filter (\<lambda>d. \<not> contactD a d) (take (Suc n) ds)"
        using keep True by (simp add: tk)
      moreover have "(\<forall>j < hits a (take (Suc n) ds). \<not> Math_random E (k + j) < 0.06)
          \<longrightarrow> pre @ [ds ! n] = take (Suc n) ds"
        using hi hiS(2) unfolding tk H by simp
      moreover have "(\<forall>j < hits a (take (Suc n) ds). Math_random E (k + j) < 0.06)
          \<longrightarrow> pre @ [ds ! n] = filter (\<lambda>d. \<not> contactD a d) (take (Suc n) ds)"
        using kept loS(1) unfolding tk H by blast
      ultimately show ?thesis by blast
    qed
  qed
qed

lemma hypot_less_iff: "0 < r \<Longrightarrow> hypot dx dy < r \<longleftrightarrow> dx * dx + dy * dy < r * r"
proof -
  assume r: "0 < r"
  have "sqrt (r * r) = r" using r by simp
  then have "hypot dx dy < r \<longleftrightarrow> sqrt (dx * dx + dy * dy) < sqrt (r * r)"
    by (simp add: hypot_def)
  then show ?thesis by (simp only: real_sqrt_less_iff)
qed

lemma contactF_iff:
  "contactF a f \<longleftrightarrow> (a_x a - f_x f) * (a_x a - f_x f) + (a_y a - f_y f) * (a_y a - f_y f) < 196"
  using hypot_less_iff [of 14] by (simp add: contactF_def dist_pt_def a_pos_def f_pos_def)

lemma contactD_iff:
  "contactD a d \<longleftrightarrow> (a_x a - d_x d) * (a_x a - d_x d) + (a_y a - d_y d) * (a_y a - d_y d) < 196"
  using hypot_less_iff [of 14] by (simp add: contactD_def dist_pt_def a_pos_def d_pos_def)

subsection \<open>One agent, one tick\<close>

lemma steer_keeps:
  "a_score (fst (steer E k a fs ds)) = a_score a"
  "a_type (fst (steer E k a fs ds)) = a_type a"
  "a_x (fst (steer E k a fs ds)) = a_x a"
  "a_y (fst (steer E k a fs ds)) = a_y a"
  by (simp_all add: steer_def steerGreedy_def steerCautious_def steerExplorer_def attract_def
      flee_def Let_def split: agent_type.splits option.splits prod.splits)

lemma dampMove_keeps:
  "a_score (dampMove E a) = a_score a"
  "a_type (dampMove E a) = a_type a"
  by (simp_all add: dampMove_def Let_def)

lemma moved_keeps:
  "a_score (moved E k a fs ds) = a_score a"
  "a_type (moved E k a fs ds) = a_type a"
  by (simp_all add: moved_def dampMove_keeps steer_keeps)

lemma clamp_bounds: "lo \<le> hi \<Longrightarrow> lo \<le> clamp v lo hi \<and> clamp v lo hi \<le> hi"
  by (simp add: clamp_def)

lemma dampMove_inside:
  assumes "24 \<le> width E" and "24 \<le> height E"
  shows "inside E (dampMove E a)"
proof -
  have "(12::real) \<le> width E - 12" and "(12::real) \<le> height E - 12"
    using assms by simp_all
  then show ?thesis
    using clamp_bounds [of 12 "width E - 12"] clamp_bounds [of 12 "height E - 12"]
    by (simp add: inside_def dampMove_def Let_def)
qed

lemma inside_score [simp]: "inside E (a\<lparr>a_score := v\<rparr>) = inside E a"
  by (simp add: inside_def)

lemma agentStep_eq:
  "\<exists>ds'. agentStep E a (fs, ds, sc, k) =
      ((moved E k a fs ds)\<lparr>a_score := a_score a + gain (moved E k a fs ds) fs
                                        - loss (moved E k a fs ds) ds\<rparr>,
       filter (\<lambda>f. \<not> contactF (moved E k a fs ds) f) fs, ds',
       sc + gain (moved E k a fs ds) fs - loss (moved E k a fs ds) ds,
       snd (steer E k a fs ds) + hits (moved E k a fs ds) ds)
     \<and> subseq ds' ds"
proof -
  let ?m = "moved E k a fs ds"
  let ?k1 = "snd (steer E k a fs ds)"
  let ?a3 = "?m\<lparr>a_score := a_score a + gain ?m fs\<rparr>"
  have F: "foodLoop (length fs) (?m, fs, sc) =
     (?a3, filter (\<lambda>f. \<not> contactF ?m f) fs, sc + gain ?m fs)"
    using foodLoop_eq [of "length fs" fs ?m sc] by (simp add: moved_keeps)
  from dangerLoop_eq [of "length ds" ds E ?a3 "sc + gain ?m fs" ?k1]
  obtain ds' where
    D: "dangerLoop E (length ds) (?a3, ds, sc + gain ?m fs, ?k1) =
          (?m\<lparr>a_score := a_score a + gain ?m fs - loss ?m ds\<rparr>, ds',
           sc + gain ?m fs - loss ?m ds, ?k1 + hits ?m ds)"
    and sub: "subseq ds' ds"
    by auto
  have "agentStep E a (fs, ds, sc, k) =
      (?m\<lparr>a_score := a_score a + gain ?m fs - loss ?m ds\<rparr>,
       filter (\<lambda>f. \<not> contactF ?m f) fs, ds',
       sc + gain ?m fs - loss ?m ds, ?k1 + hits ?m ds)"
    unfolding agentStep_def
    by (simp add: split_beta Let_def moved_def [symmetric] F D del: foodLoop.simps dangerLoop.simps)
  with sub show ?thesis by blast
qed

lemma agentStep_cases:
  obtains ds' where
    "agentStep E a (fs, ds, sc, k) =
      ((moved E k a fs ds)\<lparr>a_score := a_score a + gain (moved E k a fs ds) fs
                                        - loss (moved E k a fs ds) ds\<rparr>,
       filter (\<lambda>f. \<not> contactF (moved E k a fs ds) f) fs, ds',
       sc + gain (moved E k a fs ds) fs - loss (moved E k a fs ds) ds,
       snd (steer E k a fs ds) + hits (moved E k a fs ds) ds)"
    and "subseq ds' ds"
  using agentStep_eq [of E a fs ds sc k] by blast

lemma agentStep_agent:
  "fst (agentStep E a (fs, ds, sc, k)) =
     (moved E k a fs ds)\<lparr>a_score := a_score a + gain (moved E k a fs ds) fs
                                       - loss (moved E k a fs ds) ds\<rparr>"
  by (rule agentStep_cases [of E a fs ds sc k]) simp

lemma agentsLoop_length: "length (fst (agentsLoop E as w)) = length as"
  by (induction as arbitrary: w) (simp_all add: split_beta)

lemma agentsLoop_nth:
  "i < length as \<Longrightarrow>
   fst (agentsLoop E as w) ! i = fst (agentStep E (as ! i) (snd (agentsLoop E (take i as) w)))"
proof (induction as arbitrary: i w)
  case Nil
  then show ?case by simp
next
  case (Cons a as)
  show ?case
  proof (cases i)
    case 0
    then show ?thesis by (simp add: split_beta)
  next
    case (Suc j)
    then have "j < length as" using Cons.prems by simp
    from Cons.IH [OF this, of "snd (agentStep E a w)"] Suc
    show ?thesis by (simp add: split_beta)
  qed
qed

lemma agentsLoop_types: "map a_type (fst (agentsLoop E as w)) = map a_type as"
proof (induction as arbitrary: w)
  case Nil
  then show ?case by simp
next
  case (Cons a as)
  obtain fs ds sc k where w: "w = (fs, ds, sc, k)" by (cases w) auto
  have "a_type (fst (agentStep E a w)) = a_type a"
    unfolding w agentStep_agent by (simp add: moved_keeps)
  with Cons.IH show ?case by (simp add: split_beta)
qed

lemma agentsLoop_inside:
  assumes "24 \<le> width E" and "24 \<le> height E"
  shows "\<forall>a \<in> set (fst (agentsLoop E as w)). inside E a"
proof (induction as arbitrary: w)
  case Nil
  then show ?case by simp
next
  case (Cons a as)
  obtain fs ds sc k where w: "w = (fs, ds, sc, k)" by (cases w) auto
  have "inside E (fst (agentStep E a w))"
    unfolding w agentStep_agent using dampMove_inside [OF assms] by (simp add: moved_def)
  with Cons.IH show ?case by (simp add: split_beta)
qed

lemma agentsLoop_score:
  "fst (snd (snd (snd (agentsLoop E as (fs, ds, sc, k))))) - sc =
     sum_list (map a_score (fst (agentsLoop E as (fs, ds, sc, k)))) - sum_list (map a_score as)"
proof (induction as arbitrary: fs ds sc k)
  case Nil
  then show ?case by simp
next
  case (Cons a as)
  obtain ds1 where
    st: "agentStep E a (fs, ds, sc, k) =
      ((moved E k a fs ds)\<lparr>a_score := a_score a + gain (moved E k a fs ds) fs
                                        - loss (moved E k a fs ds) ds\<rparr>,
       filter (\<lambda>f. \<not> contactF (moved E k a fs ds) f) fs, ds1,
       sc + gain (moved E k a fs ds) fs - loss (moved E k a fs ds) ds,
       snd (steer E k a fs ds) + hits (moved E k a fs ds) ds)"
    by (rule agentStep_cases)
  show ?case
    using Cons.IH [of "filter (\<lambda>f. \<not> contactF (moved E k a fs ds) f) fs" ds1
        "sc + gain (moved E k a fs ds) fs - loss (moved E k a fs ds) ds"
        "snd (steer E k a fs ds) + hits (moved E k a fs ds) ds"]
    by (simp add: st split_beta)
qed

lemma stepOnce_agents:
  "agents (stepOnce E s) =
     fst (agentsLoop E (agents s)
            (map (moveFood E) (foods s), map (moveDanger E) (dangers s), score s, draws s))"
  by (simp add: stepOnce_def Let_def split_beta)

lemma stepOnce_score:
  "score (stepOnce E s) =
     fst (snd (snd (snd (agentsLoop E (agents s)
            (map (moveFood E) (foods s), map (moveDanger E) (dangers s), score s, draws s)))))"
  by (simp add: stepOnce_def Let_def split_beta)

text \<open>
  Claim C5. The movement step of every agent ends with the clamp of both coordinates to
  \<open>[12, width - 12]\<close> and \<open>[12, height - 12]\<close>, and nothing after it in the tick moves
  the agent. On a canvas of at least 24 by 24 pixels, the only ones on which those
  intervals are not empty (so on every canvas that has an agent inside them at all),
  every agent is inside them after every tick, wherever it started, and so inside the
  canvas.
\<close>

theorem agents_stay_inside:
  assumes "24 \<le> width E" and "24 \<le> height E"
  shows "\<forall>a \<in> set (agents (stepOnce E s)).
           12 \<le> a_x a \<and> a_x a \<le> width E - 12 \<and> 12 \<le> a_y a \<and> a_y a \<le> height E - 12
           \<and> 0 \<le> a_x a \<and> a_x a \<le> width E \<and> 0 \<le> a_y a \<and> a_y a \<le> height E"
  using agentsLoop_inside [OF assms] unfolding stepOnce_agents inside_def by fastforce

text \<open>
  Claim C4. In one tick the score of the \<open>i\<close>-th agent changes by the values of the foods
  and the severities of the hazards within 14 of where it stands after its move, taken from
  the arrays as that agent finds them, and by nothing else; the number of agents is
  unchanged; the global score changes by the sum of the agents' changes. Steering, damping,
  moving and clamping leave the score as it is, and so does a turn of \<open>loop\<close> with more
  than 500 agents, which only counts the tick. The loops of \<open>spawnAll\<close>, whatever the number
  of their turns, replace the agents by new ones of score 0 and set the global score to 0;
  so has \<open>spawnAll\<close> when it returns.
\<close>

theorem score_frame:
  "length (agents (stepOnce E s)) = length (agents s)
   \<and> (\<forall>i < length (agents s).
         (case sharedBefore E s i of (fs, ds, sc, k) \<Rightarrow>
            a_score (agents (stepOnce E s) ! i) =
              a_score (agents s ! i) + gain (agents (stepOnce E s) ! i) fs
                - loss (agents (stepOnce E s) ! i) ds))
   \<and> score (stepOnce E s) - score s =
       sum_list (map a_score (agents (stepOnce E s))) - sum_list (map a_score (agents s))
   \<and> a_score (fst (steer E k a fs ds)) = a_score a
   \<and> a_score (dampMove E a) = a_score a
   \<and> (500 < length (agents s) \<longrightarrow> agents (loop E s) = agents s \<and> score (loop E s) = score s)
   \<and> (\<forall>b \<in> set (agents (spawned E g c e f d s)). a_score b = 0)
   \<and> score (spawned E g c e f d s) = 0
   \<and> (spawnAll E I s = Some s' \<longrightarrow> (\<forall>b \<in> set (agents s'). a_score b = 0) \<and> score s' = 0)"
proof (intro conjI allI impI)
  show "\<forall>b \<in> set (agents s'). a_score b = 0" and "score s' = 0" if "spawnAll E I s = Some s'"
    using that spawned_scores by (auto elim!: spawnAll_Some)
  show "\<forall>b \<in> set (agents (spawned E g c e f d s)). a_score b = 0"
    and "score (spawned E g c e f d s) = 0"
    using spawned_scores [of E g c e f d s] by simp_all
  show "length (agents (stepOnce E s)) = length (agents s)"
    by (simp add: stepOnce_agents agentsLoop_length)
  show "score (stepOnce E s) - score s =
       sum_list (map a_score (agents (stepOnce E s))) - sum_list (map a_score (agents s))"
    unfolding stepOnce_agents stepOnce_score by (rule agentsLoop_score)
  show "a_score (fst (steer E k a fs ds)) = a_score a" by (rule steer_keeps)
  show "a_score (dampMove E a) = a_score a" by (rule dampMove_keeps)
  show "agents (loop E s) = agents s" if "500 < length (agents s)"
    using that by (simp add: loop_def)
  show "score (loop E s) = score s" if "500 < length (agents s)"
    using that by (simp add: loop_def)
next
  fix i assume i: "i < length (agents s)"
  obtain fs ds sc k where w: "sharedBefore E s i = (fs, ds, sc, k)"
    by (cases "sharedBefore E s i") auto
  have "agents (stepOnce E s) ! i = fst (agentStep E (agents s ! i) (fs, ds, sc, k))"
    unfolding stepOnce_agents using agentsLoop_nth [OF i] w by (simp add: sharedBefore_def)
  then show "case sharedBefore E s i of (fs, ds, sc, k) \<Rightarrow>
            a_score (agents (stepOnce E s) ! i) =
              a_score (agents s ! i) + gain (agents (stepOnce E s) ! i) fs
                - loss (agents (stepOnce E s) ! i) ds"
    by (simp add: w agentStep_agent)
qed

text \<open>
  One tick of the example state: the agent does not move, is within 14 of the hazard and
  loses its 6 points; the draw of one half leaves the hazard in place.
\<close>

lemma stepOnce_demo:
  "stepOnce demo_env demo_sim =
     demo_sim\<lparr> agents := [demo_agent\<lparr>a_score := - 6\<rparr>], score := - 6, draws := 1, tick := 1 \<rparr>"
  by (simp add: stepOnce_def demo_sim_def demo_agent_def demo_danger_def demo_env_def
      moveDanger_def agentStep_def steer_def steerGreedy_def seekBest_def dampMove_def clamp_def
      contactD_iff Math_random_def Let_def)

theorem agents_stay_inside_witness:
  "24 \<le> width demo_env \<and> 24 \<le> height demo_env
   \<and> agents (stepOnce demo_env demo_sim) = [demo_agent\<lparr>a_score := - 6\<rparr>]
   \<and> 12 \<le> a_x (demo_agent\<lparr>a_score := - 6\<rparr>)
   \<and> a_x (demo_agent\<lparr>a_score := - 6\<rparr>) \<le> width demo_env - 12
   \<and> 12 \<le> a_y (demo_agent\<lparr>a_score := - 6\<rparr>)
   \<and> a_y (demo_agent\<lparr>a_score := - 6\<rparr>) \<le> height demo_env - 12"
proof -
  have w: "24 \<le> width demo_env" and h: "24 \<le> height demo_env"
    by (simp_all add: demo_env_def)
  have ags: "agents (stepOnce demo_env demo_sim) = [demo_agent\<lparr>a_score := - 6\<rparr>]"
    by (simp add: stepOnce_demo)
  then have "demo_agent\<lparr>a_score := - 6\<rparr> \<in> set (agents (stepOnce demo_env demo_sim))"
    by simp
  from agents_stay_inside [OF w h, of demo_sim, rule_format, OF this] w h ags
  show ?thesis by blast
qed

theorem score_frame_witness:
  "0 < length (agents demo_sim)
   \<and> sharedBefore demo_env demo_sim 0 = ([], [demo_danger 100 110 6], 0, 0)
   \<and> loss (agents (stepOnce demo_env demo_sim) ! 0) [demo_danger 100 110 6] = 6
   \<and> a_score (agents (stepOnce demo_env demo_sim) ! 0) = a_score (agents demo_sim ! 0) - 6
   \<and> score (stepOnce demo_env demo_sim) - score demo_sim = - 6"
proof -
  have len: "0 < length (agents demo_sim)" by (simp add: demo_sim_def)
  have sb: "sharedBefore demo_env demo_sim 0 = ([], [demo_danger 100 110 6], 0, 0)"
    by (simp add: sharedBefore_def demo_sim_def moveDanger_def demo_danger_def)
  have l: "loss (agents (stepOnce demo_env demo_sim) ! 0) [demo_danger 100 110 6] = 6"
    by (simp add: stepOnce_demo loss_def contactD_iff demo_agent_def demo_danger_def)
  have g: "gain a [] = 0" for a by (simp add: gain_def)
  from score_frame [of demo_env demo_sim, THEN conjunct2, THEN conjunct1, rule_format, OF len]
  have "case sharedBefore demo_env demo_sim 0 of (fs, ds, sc, k) \<Rightarrow>
            a_score (agents (stepOnce demo_env demo_sim) ! 0) =
              a_score (agents demo_sim ! 0) + gain (agents (stepOnce demo_env demo_sim) ! 0) fs
                - loss (agents (stepOnce demo_env demo_sim) ! 0) ds" .
  then have "a_score (agents (stepOnce demo_env demo_sim) ! 0) = a_score (agents demo_sim ! 0) - 6"
    unfolding sb by (simp add: l g)
  moreover have "score (stepOnce demo_env demo_sim) - score demo_sim = - 6"
  proof -
    have "score demo_sim = 0" by (simp add: demo_sim_def)
    then show ?thesis by (simp add: stepOnce_demo)
  qed
  ultimately show ?thesis using len sb l by blast
qed

subsection \<open>The stats panel\<close>

lemma digit_char: "n < 10 \<Longrightarrow> ''0123456789'' ! n \<in> set ''0123456789''"
  by (rule nth_mem) simp

lemma digits_chars: "digits n \<noteq> [] \<and> set (digits n) \<subseteq> set ''0123456789''"
proof (induction n rule: digits.induct)
  case (1 n)
  show ?case
  proof (cases "n < 10")
    case True
    then show ?thesis using digit_char [of n] by (subst (1 2) digits.simps) simp
  next
    case False
    have "n mod 10 < 10" by simp
    with False 1 digit_char [of "n mod 10"] show ?thesis by (subst (1 2) digits.simps) simp
  qed
qed

lemma digits_no_minus: "hd (digits n) \<noteq> CHR ''-''"
proof -
  have "hd (digits n) \<in> set (digits n)" using digits_chars [of n] by simp
  then have "hd (digits n) \<in> set ''0123456789''" using digits_chars [of n] by blast
  then show ?thesis by auto
qed

text \<open>
  Claim C10. The score label of the stats panel is \<open>String(Math.max(0, Math.round(score)))\<close>:
  the decimal digits of a natural number, never a minus sign, whatever the sign of the
  global score.
\<close>

theorem statScore_never_negative:
  "statScore (updateStats s) = String (max 0 (round (score s)))
   \<and> statScore (updateStats s) = digits (nat (round (score s)))
   \<and> hd (statScore (updateStats s)) \<noteq> CHR ''-''"
  using digits_no_minus [of "nat (round (score s))"] digits_no_minus [of 0]
  by (simp add: updateStats_def String_def max_def)

text \<open>One tick of the example state costs the agent the hazard's 6 points: the
  global score is -6 and the panel shows 0.\<close>

theorem statScore_never_negative_witness:
  "score (stepOnce demo_env demo_sim) = - 6
   \<and> statScore (updateStats (stepOnce demo_env demo_sim)) = ''0''"
  using statScore_never_negative [of "stepOnce demo_env demo_sim"]
  by (simp add: stepOnce_demo String_def digits.simps round_def)

subsection \<open>A tick, agent by agent\<close>

text \<open>
  One agent's turn in full: where it moves, what it collects and loses, and which hazards
  are left.
\<close>

lemma agentStep_full:
  "\<exists>ds'. agentStep E a (fs, ds, sc, k) =
      ((moved E k a fs ds)\<lparr>a_score := a_score a + gain (moved E k a fs ds) fs
                                        - loss (moved E k a fs ds) ds\<rparr>,
       filter (\<lambda>f. \<not> contactF (moved E k a fs ds) f) fs, ds',
       sc + gain (moved E k a fs ds) fs - loss (moved E k a fs ds) ds,
       snd (steer E k a fs ds) + hits (moved E k a fs ds) ds)
     \<and> subseq ds' ds
     \<and> filter (\<lambda>d. \<not> contactD (moved E k a fs ds) d) ds'
         = filter (\<lambda>d. \<not> contactD (moved E k a fs ds) d) ds
     \<and> ((\<forall>j < hits (moved E k a fs ds) ds.
            \<not> Math_random E (snd (steer E k a fs ds) + j) < 0.06) \<longrightarrow> ds' = ds)
     \<and> ((\<forall>j < hits (moved E k a fs ds) ds.
            Math_random E (snd (steer E k a fs ds) + j) < 0.06) \<longrightarrow>
          ds' = filter (\<lambda>d. \<not> contactD (moved E k a fs ds) d) ds)"
proof -
  let ?m = "moved E k a fs ds"
  let ?k1 = "snd (steer E k a fs ds)"
  let ?a3 = "?m\<lparr>a_score := a_score a + gain ?m fs\<rparr>"
  have F: "foodLoop (length fs) (?m, fs, sc) =
     (?a3, filter (\<lambda>f. \<not> contactF ?m f) fs, sc + gain ?m fs)"
    using foodLoop_eq [of "length fs" fs ?m sc] by (simp add: moved_keeps)
  from dangerLoop_eq [of "length ds" ds E ?a3 "sc + gain ?m fs" ?k1]
  obtain ds' where
    D: "dangerLoop E (length ds) (?a3, ds, sc + gain ?m fs, ?k1) =
          (?m\<lparr>a_score := a_score a + gain ?m fs - loss ?m ds\<rparr>, ds',
           sc + gain ?m fs - loss ?m ds, ?k1 + hits ?m ds)"
    and sub: "subseq ds' ds"
    and keep: "filter (\<lambda>d. \<not> contactD ?m d) ds' = filter (\<lambda>d. \<not> contactD ?m d) ds"
    and hi: "(\<forall>j < hits ?m ds. \<not> Math_random E (?k1 + j) < 0.06) \<longrightarrow> ds' = ds"
    and lo: "(\<forall>j < hits ?m ds. Math_random E (?k1 + j) < 0.06) \<longrightarrow>
          ds' = filter (\<lambda>d. \<not> contactD ?m d) ds"
    by auto
  have "agentStep E a (fs, ds, sc, k) =
      (?m\<lparr>a_score := a_score a + gain ?m fs - loss ?m ds\<rparr>,
       filter (\<lambda>f. \<not> contactF ?m f) fs, ds',
       sc + gain ?m fs - loss ?m ds, ?k1 + hits ?m ds)"
    unfolding agentStep_def
    by (simp add: split_beta Let_def moved_def [symmetric] F D del: foodLoop.simps dangerLoop.simps)
  with sub keep hi lo show ?thesis by blast
qed






lemma hypot_axis: "hypot dx 0 = \<bar>dx\<bar>"
  by (simp add: hypot_def)




subsection \<open>Rounding to a double\<close>

lemma pow2_pos: "0 < pow2 e"
  by (simp add: pow2_def)

lemma pow2_powr: "pow2 e = 2 powr (of_int e)"
proof (cases "0 \<le> e")
  case True
  then have "2 powr (of_int e) = (2::real) powr (real (nat e))" by simp
  also have "\<dots> = 2 ^ nat e" by (rule powr_realpow) simp
  finally show ?thesis using True by (simp add: pow2_def)
next
  case False
  then have "2 powr (of_int e) = (2::real) powr (- real (nat (- e)))" by simp
  also have "\<dots> = 1 / 2 powr (real (nat (- e)))" by (simp add: powr_minus_divide)
  also have "2 powr (real (nat (- e))) = (2::real) ^ nat (- e)" by (rule powr_realpow) simp
  finally show ?thesis using False by (simp add: pow2_def)
qed

lemma binade_eq:
  assumes "pow2 e \<le> \<bar>x\<bar>" and "\<bar>x\<bar> < pow2 (e + 1)" and "- 1022 \<le> e"
  shows "binade x = e"
proof -
  have pos: "0 < \<bar>x\<bar>" using assms(1) pow2_pos [of e] by linarith
  have "\<lfloor>log 2 \<bar>x\<bar>\<rfloor> = e"
    using assms(1,2) pos by (simp add: floor_log_eq_powr_iff pow2_powr)
  then show ?thesis using assms(3) by (simp add: binade_def)
qed

lemma ties_to_even_int: "ties_to_even (of_int z) = z"
  by (simp add: ties_to_even_def)

text \<open>
  The double nearest to \<open>x\<close>, once the power of two below \<open>x\<close> is known.
\<close>

lemma to_double_eval:
  assumes "pow2 e \<le> \<bar>x\<bar>" and "\<bar>x\<bar> < pow2 (e + 1)" and "- 1022 \<le> e"
  shows "to_double x =
     (let y = of_int (ties_to_even (x / pow2 (e - 52))) * pow2 (e - 52)
      in if pow2 1024 \<le> \<bar>y\<bar> then (if 0 < x then PInf else NInf) else Fin y)"
proof -
  have "x \<noteq> 0" using assms(1) pow2_pos [of e] by auto
  then show ?thesis by (simp add: to_double_def ulp_def binade_eq [OF assms])
qed

lemma to_double_0 [simp]: "to_double 0 = Fin 0"
  by (simp add: to_double_def)

lemma to_double_1 [simp]: "to_double 1 = Fin 1"
  using to_double_eval [of 0 1] ties_to_even_int [of "2 ^ 52"]
  by (simp add: pow2_def Let_def)

lemma to_double_100 [simp]: "to_double 100 = Fin 100"
  using to_double_eval [of 6 100] ties_to_even_int [of "100 * 2 ^ 46"]
  by (simp add: pow2_def Let_def)

lemma to_double_058: "to_double (58 / 100) = Fin (5224175567749775 / 2 ^ 53)"
proof -
  have f: "\<lfloor>(58 / 100 :: real) / (1 / 2 ^ 53)\<rfloor> = 5224175567749775" by (simp add: floor_eq_iff)
  show ?thesis
    using to_double_eval [of "- 1" "58 / 100"]
    by (simp add: pow2_def Let_def ties_to_even_def f)
qed

lemma to_double_145:
  "to_double (5224175567749775 / 2 ^ 53 * 25) = Fin (8162774324609023 / 2 ^ 49)"
proof -
  have f: "\<lfloor>(5224175567749775 / 2 ^ 53 * 25 :: real) / (1 / 2 ^ 49)\<rfloor> = 8162774324609023"
    by (simp add: floor_eq_iff)
  show ?thesis
    using to_double_eval [of 3 "5224175567749775 / 2 ^ 53 * 25"]
    by (simp add: pow2_def Let_def ties_to_even_def f)
qed

text \<open>
  With the fields 25, 58, 0 and 42 there are fourteen greedy agents: \<open>0.58 * 25\<close> is the
  double just below 14.5, which exact arithmetic would round up to fifteen.
\<close>

lemma greedyN_rounds_a_double:
  "greedyN \<lparr> agentCount = Fin 25, pGreedy = Fin 58, pCautious = Fin 0, pExplorer = Fin 42,
             foodCount = NaN, dangerCount = NaN \<rparr> = Fin 14"
proof -
  have t: "to_double (58 + 0 :: real) = Fin 58"
    using to_double_eval [of 5 58] ties_to_even_int [of "58 * 2 ^ 47"]
    by (simp add: pow2_def Let_def)
  have r: "round (8162774324609023 / 2 ^ 49 :: real) = 14"
    by (simp add: round_def floor_eq_iff)
  show ?thesis
    using t r to_double_058 to_double_145
    by (simp add: greedyN_def mixTotal_def agentN_def or_default_def Let_def)
qed

subsection \<open>Passive motion of foods and hazards\<close>

text \<open>
  An item on course stays on course: the reflecting motion keeps \<open>bouncing\<close>.
\<close>

lemma bouncing_step:
  assumes "bouncing hi x v"
  shows "bouncing hi (x + v) (if x + v < 20 \<or> x + v > hi - 20 then v * - 1 else v)"
  using assms unfolding bouncing_def by (auto simp: abs_if split: if_splits)

lemma bouncing_in_world: "bouncing hi x v \<Longrightarrow> 19 \<le> x \<and> x \<le> hi - 19"
  unfolding bouncing_def by (auto simp: abs_if split: if_splits)

lemma Math_random_range: "0 \<le> Math_random E k \<and> Math_random E k < 1"
  by (simp add: Math_random_def)

lemma rand_range: "mn \<le> mx \<Longrightarrow> mn \<le> rand E k mn mx \<and> rand E k mn mx \<le> mx"
proof -
  assume le: "mn \<le> mx"
  let ?r = "Math_random E k"
  have r: "0 \<le> ?r" "?r \<le> 1" using Math_random_range [of E k] by simp_all
  have "0 \<le> ?r * (mx - mn)" using r le by simp
  moreover have "?r * (mx - mn) \<le> 1 * (mx - mn)"
    using r le by (intro mult_right_mono) simp_all
  ultimately show ?thesis by (simp add: rand_def)
qed

lemma spawn_bouncing:
  assumes "80 \<le> hi" and "0 \<le> c" and "c \<le> 1"
  shows "bouncing hi (rand E k 40 (hi - 40)) (rand E j (- c) c)"
proof -
  have x: "40 \<le> rand E k 40 (hi - 40) \<and> rand E k 40 (hi - 40) \<le> hi - 40"
    using assms by (intro rand_range) simp
  have v: "- c \<le> rand E j (- c) c \<and> rand E j (- c) c \<le> c"
    using assms by (intro rand_range) simp
  show ?thesis using x v assms unfolding bouncing_def by (auto simp: abs_if)
qed

lemma newFood_OK: "80 \<le> width E \<Longrightarrow> 80 \<le> height E \<Longrightarrow> foodOK E (newFood E k i)"
  using spawn_bouncing [of "width E" "0.5" E k "k + 3"]
    spawn_bouncing [of "height E" "0.5" E "k + 1" "k + 4"]
  by (simp add: foodOK_def newFood_def)

lemma newDanger_OK: "80 \<le> width E \<Longrightarrow> 80 \<le> height E \<Longrightarrow> dangerOK E (newDanger E k i)"
  using spawn_bouncing [of "width E" "0.6" E k "k + 3"]
    spawn_bouncing [of "height E" "0.6" E "k + 1" "k + 4"]
  by (simp add: dangerOK_def newDanger_def)

lemma moveFood_OK: "foodOK E f \<Longrightarrow> foodOK E (moveFood E f)"
  using bouncing_step [of "width E" "f_x f" "f_vx f"] bouncing_step [of "height E" "f_y f" "f_vy f"]
  by (simp add: foodOK_def moveFood_def Let_def)

lemma moveDanger_OK: "dangerOK E d \<Longrightarrow> dangerOK E (moveDanger E d)"
  using bouncing_step [of "width E" "d_x d" "d_vx d"] bouncing_step [of "height E" "d_y d" "d_vy d"]
  by (simp add: dangerOK_def moveDanger_def Let_def)

lemma pushFoods_all:
  assumes "\<forall>f \<in> set fs. P f" and "\<And>k i. P (newFood E k i)"
  shows "\<forall>f \<in> set (fst (pushFoods E n (fs, k))). P f"
proof (induction n)
  case 0
  then show ?case using assms by (simp add: pushFoods_def)
next
  case (Suc n)
  then show ?case using assms(2) by (auto simp: pushFoods_Suc split_beta)
qed

lemma pushDangers_all:
  assumes "\<forall>d \<in> set ds. P d" and "\<And>k i. P (newDanger E k i)"
  shows "\<forall>d \<in> set (fst (pushDangers E n (ds, k))). P d"
proof (induction n)
  case 0
  then show ?case using assms by (simp add: pushDangers_def)
next
  case (Suc n)
  then show ?case using assms(2) by (auto simp: pushDangers_Suc split_beta)
qed


lemma spawned_items_OK:
  assumes "80 \<le> width E" and "80 \<le> height E"
  shows "(\<forall>x \<in> set (foods (spawned E g c e f d s)). foodOK E x)
       \<and> (\<forall>x \<in> set (dangers (spawned E g c e f d s)). dangerOK E x)"
proof -
  have "\<forall>x \<in> set (fst (pushFoods E f ([], k))). foodOK E x" for k
    by (rule pushFoods_all) (simp_all add: newFood_OK assms)
  moreover have "\<forall>x \<in> set (fst (pushDangers E d ([], k))). dangerOK E x" for k
    by (rule pushDangers_all) (simp_all add: newDanger_OK assms)
  ultimately show ?thesis by (simp add: spawned_def Let_def split_beta)
qed

text \<open>
  What the agents of a tick leave of the foods and of the hazards.
\<close>

lemma agentsLoop_foods:
  "fst (snd (agentsLoop E as (fs, ds, sc, k))) =
     filter (\<lambda>f. \<forall>a \<in> set (fst (agentsLoop E as (fs, ds, sc, k))). \<not> contactF a f) fs"
proof (induction as arbitrary: fs ds sc k)
  case Nil
  then show ?case by simp
next
  case (Cons a as)
  let ?m = "moved E k a fs ds"
  obtain ds1 where
    st: "agentStep E a (fs, ds, sc, k) =
      (?m\<lparr>a_score := a_score a + gain ?m fs - loss ?m ds\<rparr>,
       filter (\<lambda>f. \<not> contactF ?m f) fs, ds1,
       sc + gain ?m fs - loss ?m ds, snd (steer E k a fs ds) + hits ?m ds)"
    by (rule agentStep_cases)
  show ?case
    using Cons.IH [of "filter (\<lambda>f. \<not> contactF ?m f) fs" ds1
        "sc + gain ?m fs - loss ?m ds" "snd (steer E k a fs ds) + hits ?m ds"]
    by (simp add: st split_beta conj_commute)
qed

lemma agentsLoop_dangers:
  "subseq (fst (snd (snd (agentsLoop E as (fs, ds, sc, k))))) ds
   \<and> filter (\<lambda>d. \<forall>a \<in> set (fst (agentsLoop E as (fs, ds, sc, k))). \<not> contactD a d)
        (fst (snd (snd (agentsLoop E as (fs, ds, sc, k)))))
     = filter (\<lambda>d. \<forall>a \<in> set (fst (agentsLoop E as (fs, ds, sc, k))). \<not> contactD a d) ds"
proof (induction as arbitrary: fs ds sc k)
  case Nil
  then show ?case by simp
next
  case (Cons a as)
  let ?m = "moved E k a fs ds"
  from agentStep_full [of E a fs ds sc k] obtain ds1 where
    st: "agentStep E a (fs, ds, sc, k) =
      (?m\<lparr>a_score := a_score a + gain ?m fs - loss ?m ds\<rparr>,
       filter (\<lambda>f. \<not> contactF ?m f) fs, ds1,
       sc + gain ?m fs - loss ?m ds, snd (steer E k a fs ds) + hits ?m ds)"
    and sub: "subseq ds1 ds"
    and keep: "filter (\<lambda>d. \<not> contactD ?m d) ds1 = filter (\<lambda>d. \<not> contactD ?m d) ds"
    by blast
  let ?w1 = "(filter (\<lambda>f. \<not> contactF ?m f) fs, ds1,
        sc + gain ?m fs - loss ?m ds, snd (steer E k a fs ds) + hits ?m ds)"
  let ?as' = "fst (agentsLoop E as ?w1)"
  let ?ds' = "fst (snd (snd (agentsLoop E as ?w1)))"
  let ?P = "\<lambda>d. \<forall>a \<in> set ?as'. \<not> contactD a d"
  from Cons.IH [of "filter (\<lambda>f. \<not> contactF ?m f) fs" ds1
        "sc + gain ?m fs - loss ?m ds" "snd (steer E k a fs ds) + hits ?m ds"]
  have sub': "subseq ?ds' ds1" and keep': "filter ?P ?ds' = filter ?P ds1"
    by simp_all
  have "subseq ?ds' ds" using sub' sub by (rule subseq_order.trans)
  moreover have "filter (\<lambda>d. \<not> contactD ?m d \<and> ?P d) ?ds' = filter (\<lambda>d. \<not> contactD ?m d \<and> ?P d) ds"
  proof -
    have A: "filter (\<lambda>d. \<not> contactD ?m d \<and> ?P d) xs = filter ?P (filter (\<lambda>d. \<not> contactD ?m d) xs)"
      for xs by simp
    have B: "filter (\<lambda>d. \<not> contactD ?m d \<and> ?P d) xs = filter (\<lambda>d. \<not> contactD ?m d) (filter ?P xs)"
      for xs unfolding filter_filter by (rule filter_cong) auto
    have "filter (\<lambda>d. \<not> contactD ?m d \<and> ?P d) ?ds' = filter (\<lambda>d. \<not> contactD ?m d) (filter ?P ?ds')"
      by (rule B)
    also have "\<dots> = filter (\<lambda>d. \<not> contactD ?m d) (filter ?P ds1)"
      by (simp only: keep')
    also have "\<dots> = filter (\<lambda>d. \<not> contactD ?m d \<and> ?P d) ds1"
      by (rule B [symmetric])
    also have "\<dots> = filter ?P (filter (\<lambda>d. \<not> contactD ?m d) ds1)"
      by (rule A)
    also have "\<dots> = filter ?P (filter (\<lambda>d. \<not> contactD ?m d) ds)"
      by (simp only: keep)
    also have "\<dots> = filter (\<lambda>d. \<not> contactD ?m d \<and> ?P d) ds"
      by (rule A [symmetric])
    finally show ?thesis .
  qed
  ultimately show ?case by (simp add: st split_beta)
qed

lemma stepOnce_foods:
  "foods (stepOnce E s) =
     filter (\<lambda>f. \<forall>a \<in> set (agents (stepOnce E s)). \<not> contactF a f) (map (moveFood E) (foods s))"
  using agentsLoop_foods [of E "agents s" "map (moveFood E) (foods s)"
      "map (moveDanger E) (dangers s)" "score s" "draws s"]
  by (simp add: stepOnce_def Let_def split_beta)

lemma stepOnce_dangers:
  "subseq (dangers (stepOnce E s)) (map (moveDanger E) (dangers s))
   \<and> filter (\<lambda>d. \<forall>a \<in> set (agents (stepOnce E s)). \<not> contactD a d) (dangers (stepOnce E s))
     = filter (\<lambda>d. \<forall>a \<in> set (agents (stepOnce E s)). \<not> contactD a d)
         (map (moveDanger E) (dangers s))"
  using agentsLoop_dangers [of E "agents s" "map (moveFood E) (foods s)"
      "map (moveDanger E) (dangers s)" "score s" "draws s"]
  by (simp add: stepOnce_def Let_def split_beta)

lemma loop_items_OK:
  assumes "\<forall>x \<in> set (foods s). foodOK E x" and "\<forall>x \<in> set (dangers s). dangerOK E x"
  shows "(\<forall>x \<in> set (foods (loop E s)). foodOK E x)
       \<and> (\<forall>x \<in> set (dangers (loop E s)). dangerOK E x)"
proof -
  have "set (foods (stepOnce E s)) \<subseteq> moveFood E ` set (foods s)"
    by (subst stepOnce_foods) auto
  moreover have "set (dangers (stepOnce E s)) \<subseteq> moveDanger E ` set (dangers s)"
    using stepOnce_dangers [of E s, THEN conjunct1] by (auto elim: list_emb_set)
  ultimately have "(\<forall>x \<in> set (foods (stepOnce E s)). foodOK E x)
       \<and> (\<forall>x \<in> set (dangers (stepOnce E s)). dangerOK E x)"
    using assms moveFood_OK moveDanger_OK by blast
  with assms show ?thesis by (simp add: loop_def)
qed

lemma resized_same: "wh = (width E, height E) \<Longrightarrow> resized E wh = E"
  by (simp add: resized_def)

lemma turns_items_OK:
  assumes "\<forall>wh \<in> set sizes. wh = (width E, height E)"
    and "\<forall>x \<in> set (foods s). foodOK E x" and "\<forall>x \<in> set (dangers s). dangerOK E x"
  shows "(\<forall>x \<in> set (foods (turns E sizes s)). foodOK E x)
       \<and> (\<forall>x \<in> set (dangers (turns E sizes s)). dangerOK E x)"
  using assms
proof (induction sizes arbitrary: s)
  case Nil
  then show ?case by (simp add: turns_def)
next
  case (Cons wh sizes)
  have r: "resized E wh = E" using Cons.prems(1) by (simp add: resized_same)
  have t: "turns E (wh # sizes) s = turns E sizes (loop E s)"
    by (simp add: turns_def r)
  from loop_items_OK [OF Cons.prems(2,3)] Cons.prems(1)
  show ?case unfolding t by (intro Cons.IH) simp_all
qed

lemma run_items_OK:
  assumes "80 \<le> width E" and "80 \<le> height E"
    and "\<forall>wh \<in> set sizes. wh = (width E, height E)"
    and "run E I s0 sizes = Some s1"
  shows "(\<forall>x \<in> set (foods s1). foodOK E x) \<and> (\<forall>x \<in> set (dangers s1). dangerOK E x)"
proof -
  from assms(4) obtain t where sp: "spawnAll E I s0 = Some t"
    and s1: "s1 = turns E sizes (t\<lparr>running := True\<rparr>)"
    by (auto simp: run_def)
  from sp obtain g c e f d where t: "t = spawned E g c e f d s0"
    by (rule spawnAll_Some)
  have "(\<forall>x \<in> set (foods (t\<lparr>running := True\<rparr>)). foodOK E x)
      \<and> (\<forall>x \<in> set (dangers (t\<lparr>running := True\<rparr>)). dangerOK E x)"
    unfolding t using spawned_items_OK [OF assms(1,2)] by simp
  then show ?thesis
    unfolding s1 using turns_items_OK [OF assms(3)] by blast
qed

text \<open>
  Example runs: the example inputs on the canvas whose draws make the food mobile, one
  tick on the canvas as it was and one tick after the canvas has been made 300 wide.
\<close>

lemma spawnAll_demo_counts:
  "iters (greedyN demo_inputs) = Some 1 \<and> iters (cautiousN demo_inputs) = Some 0
   \<and> iters (explorerN demo_inputs) = Some 0 \<and> iters (foodN demo_inputs) = Some 1
   \<and> iters (dangerN demo_inputs) = Some 1"
  by (simp add: greedyN_def cautiousN_def explorerN_def foodN_def dangerN_def agentN_def
      mixTotal_def or_default_def num_sub_def demo_inputs_def Let_def)

lemma spawnAll_mobile:
  "spawnAll mobile_env demo_inputs demo_sim =
     Some \<lparr> agents = [\<lparr> a_x = 40, a_y = 180, a_vx = 0, a_vy = 0, a_type = greedy, a_wobble = 5,
                         a_score = 0 \<rparr>],
            foods = [(demo_food 400 180 10)\<lparr> f_mobile := True, f_vx := 1 / 4 \<rparr>],
            dangers = [demo_danger 400 180 10],
            running = True, tick = 0, score = 0, draws = 15 \<rparr>"
  by (simp add: spawnAll_def spawnAll_demo_counts max_length_def spawned_def pushAgents_def
      pushFoods_def pushDangers_def newAgent_def newFood_def newDanger_def rand_def
      Math_random_def tier_def mobile_env_def demo_sim_def demo_food_def demo_danger_def Let_def)

lemma run_mobile:
  "run mobile_env demo_inputs demo_sim [(800, 360)] =
     Some \<lparr> agents = [\<lparr> a_x = 40.049, a_y = 180, a_vx = 0.049, a_vy = 0, a_type = greedy,
                         a_wobble = 5, a_score = 0 \<rparr>],
            foods = [(demo_food 400.25 180 10)\<lparr> f_mobile := True, f_vx := 1 / 4 \<rparr>],
            dangers = [demo_danger 400 180 10],
            running = True, tick = 1, score = 0, draws = 15 \<rparr>"
  unfolding run_def spawnAll_mobile
  by (simp add: turns_def loop_def resized_def stepOnce_def moveFood_def
      moveDanger_def agentStep_def steer_def steerGreedy_def seekBest_def foodScore_def
      dist_pt_def hypot_axis a_pos_def f_pos_def dampMove_def clamp_def contactF_iff contactD_iff
      mobile_env_def demo_food_def demo_danger_def Let_def)

lemma run_mobile_resized:
  "run mobile_env demo_inputs demo_sim [(300, 360)] =
     Some \<lparr> agents = [\<lparr> a_x = 40.049, a_y = 180, a_vx = 0.049, a_vy = 0, a_type = greedy,
                         a_wobble = 5, a_score = 0 \<rparr>],
            foods = [(demo_food 400.25 180 10)\<lparr> f_mobile := True, f_vx := - (1 / 4) \<rparr>],
            dangers = [demo_danger 400 180 10],
            running = True, tick = 1, score = 0, draws = 15 \<rparr>"
  unfolding run_def spawnAll_mobile
  by (simp add: turns_def loop_def resized_def stepOnce_def moveFood_def
      moveDanger_def agentStep_def steer_def steerGreedy_def seekBest_def foodScore_def
      dist_pt_def hypot_axis a_pos_def f_pos_def dampMove_def clamp_def contactF_iff contactD_iff
      mobile_env_def demo_food_def demo_danger_def Let_def)

text \<open>
  Claim C6, as the code has it. A tick run by \<open>stepOnce\<close> first moves every food and hazard:
  the foods after the tick are the moved foods that no agent is in contact with, the
  hazards a subsequence of the moved hazards with every one that no agent is in contact
  with. A mobile item advances by its velocity, and a velocity component changes sign,
  and nothing else of it changes, when the new coordinate is outside \<open>[20, width - 20]\<close>
  (\<open>[20, height - 20]\<close>), so the speed is kept; an immobile item stays. The position is not
  clamped: an item passes the line it turns at by less than one step and comes back with
  the next. While the canvas keeps the size it had at \<open>spawnAll\<close>, at least 80 by 80, every
  food and hazard of a run lies in \<open>[19, width - 19]\<close> by \<open>[19, height - 19]\<close>, inside the
  canvas. A turn of \<open>loop\<close> is such a tick with at most 500 agents; with more, no item
  moves.
\<close>

theorem tick_moves_items:
  "foods (stepOnce E s) =
     filter (\<lambda>x. \<forall>a \<in> set (agents (stepOnce E s)). \<not> contactF a x) (map (moveFood E) (foods s))
   \<and> subseq (dangers (stepOnce E s)) (map (moveDanger E) (dangers s))
   \<and> filter (\<lambda>x. \<forall>a \<in> set (agents (stepOnce E s)). \<not> contactD a x) (dangers (stepOnce E s))
       = filter (\<lambda>x. \<forall>a \<in> set (agents (stepOnce E s)). \<not> contactD a x)
           (map (moveDanger E) (dangers s))
   \<and> (f_mobile f \<longrightarrow>
         f_x (moveFood E f) = f_x f + f_vx f \<and> f_y (moveFood E f) = f_y f + f_vy f
         \<and> \<bar>f_vx (moveFood E f)\<bar> = \<bar>f_vx f\<bar> \<and> \<bar>f_vy (moveFood E f)\<bar> = \<bar>f_vy f\<bar>
         \<and> f_vx (moveFood E f) =
             (if f_x f + f_vx f < 20 \<or> f_x f + f_vx f > width E - 20 then - f_vx f else f_vx f)
         \<and> f_vy (moveFood E f) =
             (if f_y f + f_vy f < 20 \<or> f_y f + f_vy f > height E - 20 then - f_vy f else f_vy f))
   \<and> (\<not> f_mobile f \<longrightarrow> moveFood E f = f)
   \<and> (d_mobile d \<longrightarrow>
         d_x (moveDanger E d) = d_x d + d_vx d \<and> d_y (moveDanger E d) = d_y d + d_vy d
         \<and> \<bar>d_vx (moveDanger E d)\<bar> = \<bar>d_vx d\<bar> \<and> \<bar>d_vy (moveDanger E d)\<bar> = \<bar>d_vy d\<bar>
         \<and> d_vx (moveDanger E d) =
             (if d_x d + d_vx d < 20 \<or> d_x d + d_vx d > width E - 20 then - d_vx d else d_vx d)
         \<and> d_vy (moveDanger E d) =
             (if d_y d + d_vy d < 20 \<or> d_y d + d_vy d > height E - 20 then - d_vy d else d_vy d))
   \<and> (\<not> d_mobile d \<longrightarrow> moveDanger E d = d)
   \<and> (80 \<le> width E \<and> 80 \<le> height E \<and> (\<forall>wh \<in> set sizes. wh = (width E, height E))
        \<and> run E I s0 sizes = Some s1 \<longrightarrow>
         (\<forall>x \<in> set (foods s1).
            19 \<le> f_x x \<and> f_x x \<le> width E - 19 \<and> 19 \<le> f_y x \<and> f_y x \<le> height E - 19)
         \<and> (\<forall>x \<in> set (dangers s1).
            19 \<le> d_x x \<and> d_x x \<le> width E - 19 \<and> 19 \<le> d_y x \<and> d_y x \<le> height E - 19))
   \<and> (running s \<and> length (agents s) \<le> 500 \<longrightarrow> loop E s = stepOnce E s)
   \<and> (500 < length (agents s) \<longrightarrow> foods (loop E s) = foods s \<and> dangers (loop E s) = dangers s)"
proof (intro conjI impI)
  show "foods (stepOnce E s) =
     filter (\<lambda>x. \<forall>a \<in> set (agents (stepOnce E s)). \<not> contactF a x) (map (moveFood E) (foods s))"
    by (rule stepOnce_foods)
  show "subseq (dangers (stepOnce E s)) (map (moveDanger E) (dangers s))"
    and "filter (\<lambda>x. \<forall>a \<in> set (agents (stepOnce E s)). \<not> contactD a x) (dangers (stepOnce E s))
       = filter (\<lambda>x. \<forall>a \<in> set (agents (stepOnce E s)). \<not> contactD a x)
           (map (moveDanger E) (dangers s))"
    using stepOnce_dangers [of E s] by simp_all
  show "moveFood E f = f" if "\<not> f_mobile f" using that by (simp add: moveFood_def)
  show "moveDanger E d = d" if "\<not> d_mobile d" using that by (simp add: moveDanger_def)
  show "loop E s = stepOnce E s" if "running s \<and> length (agents s) \<le> 500"
    using that by (simp add: loop_def)
  show "foods (loop E s) = foods s" and "dangers (loop E s) = dangers s"
    if "500 < length (agents s)"
    using that by (simp_all add: loop_def)
next
  assume "f_mobile f"
  then show "f_x (moveFood E f) = f_x f + f_vx f" and "f_y (moveFood E f) = f_y f + f_vy f"
    and "\<bar>f_vx (moveFood E f)\<bar> = \<bar>f_vx f\<bar>" and "\<bar>f_vy (moveFood E f)\<bar> = \<bar>f_vy f\<bar>"
    and "f_vx (moveFood E f) =
             (if f_x f + f_vx f < 20 \<or> f_x f + f_vx f > width E - 20 then - f_vx f else f_vx f)"
    and "f_vy (moveFood E f) =
             (if f_y f + f_vy f < 20 \<or> f_y f + f_vy f > height E - 20 then - f_vy f else f_vy f)"
    by (simp_all add: moveFood_def Let_def)
next
  assume "d_mobile d"
  then show "d_x (moveDanger E d) = d_x d + d_vx d" and "d_y (moveDanger E d) = d_y d + d_vy d"
    and "\<bar>d_vx (moveDanger E d)\<bar> = \<bar>d_vx d\<bar>" and "\<bar>d_vy (moveDanger E d)\<bar> = \<bar>d_vy d\<bar>"
    and "d_vx (moveDanger E d) =
             (if d_x d + d_vx d < 20 \<or> d_x d + d_vx d > width E - 20 then - d_vx d else d_vx d)"
    and "d_vy (moveDanger E d) =
             (if d_y d + d_vy d < 20 \<or> d_y d + d_vy d > height E - 20 then - d_vy d else d_vy d)"
    by (simp_all add: moveDanger_def Let_def)
next
  assume h: "80 \<le> width E \<and> 80 \<le> height E \<and> (\<forall>wh \<in> set sizes. wh = (width E, height E))
        \<and> run E I s0 sizes = Some s1"
  then have ok: "(\<forall>x \<in> set (foods s1). foodOK E x) \<and> (\<forall>x \<in> set (dangers s1). dangerOK E x)"
    by (intro run_items_OK [of E sizes I s0 s1]) simp_all
  show "\<forall>x \<in> set (foods s1).
            19 \<le> f_x x \<and> f_x x \<le> width E - 19 \<and> 19 \<le> f_y x \<and> f_y x \<le> height E - 19"
    using ok bouncing_in_world unfolding foodOK_def by blast
  show "\<forall>x \<in> set (dangers s1).
            19 \<le> d_x x \<and> d_x x \<le> width E - 19 \<and> 19 \<le> d_y x \<and> d_y x \<le> height E - 19"
    using ok bouncing_in_world unfolding dangerOK_def by blast
qed

theorem tick_moves_items_witness:
  "run mobile_env demo_inputs demo_sim [(800, 360)] =
     Some \<lparr> agents = [\<lparr> a_x = 40.049, a_y = 180, a_vx = 0.049, a_vy = 0, a_type = greedy,
                         a_wobble = 5, a_score = 0 \<rparr>],
            foods = [(demo_food 400.25 180 10)\<lparr> f_mobile := True, f_vx := 1 / 4 \<rparr>],
            dangers = [demo_danger 400 180 10],
            running = True, tick = 1, score = 0, draws = 15 \<rparr>
   \<and> moveFood mobile_env ((demo_food 400 180 10)\<lparr> f_mobile := True, f_vx := 1 / 4 \<rparr>)
       = (demo_food 400.25 180 10)\<lparr> f_mobile := True, f_vx := 1 / 4 \<rparr>
   \<and> (19 :: real) \<le> 400.25 \<and> (400.25 :: real) \<le> width mobile_env - 19
   \<and> f_x (moveFood demo_env ((demo_food 20.2 100 6)\<lparr>f_mobile := True, f_vx := - 0.5\<rparr>)) = 19.7
   \<and> f_vx (moveFood demo_env ((demo_food 20.2 100 6)\<lparr>f_mobile := True, f_vx := - 0.5\<rparr>)) = 0.5"
proof -
  let ?f0 = "(demo_food 400 180 10)\<lparr> f_mobile := True, f_vx := 1 / 4 \<rparr>"
  let ?f1 = "(demo_food 400.25 180 10)\<lparr> f_mobile := True, f_vx := 1 / 4 \<rparr>"
  let ?g = "(demo_food 20.2 100 6)\<lparr>f_mobile := True, f_vx := - 0.5\<rparr>"
  let ?s1 = "\<lparr> agents = [\<lparr> a_x = 40.049, a_y = 180, a_vx = 0.049, a_vy = 0, a_type = greedy,
                         a_wobble = 5, a_score = 0 \<rparr>],
            foods = [?f1], dangers = [demo_danger 400 180 10],
            running = True, tick = 1, score = 0, draws = 15 \<rparr>"
  have r: "run mobile_env demo_inputs demo_sim [(800, 360)] = Some ?s1" by (rule run_mobile)
  have h: "80 \<le> width mobile_env \<and> 80 \<le> height mobile_env
      \<and> (\<forall>wh \<in> set [(800, 360)]. wh = (width mobile_env, height mobile_env))
      \<and> run mobile_env demo_inputs demo_sim [(800, 360)] = Some ?s1"
    using r by (simp add: mobile_env_def)
  have mem: "?f1 \<in> set (foods ?s1)" by simp
  note inst = tick_moves_items [of mobile_env _ ?f0 _ "[(800, 360)]" demo_inputs demo_sim ?s1]
  from inst [THEN conjunct2, THEN conjunct2, THEN conjunct2, THEN conjunct2, THEN conjunct2,
      THEN conjunct2, THEN conjunct2, THEN conjunct1, rule_format, OF h, THEN conjunct1,
      rule_format, OF mem]
  have bounds: "(19 :: real) \<le> 400.25 \<and> (400.25 :: real) \<le> width mobile_env - 19"
    by (simp add: demo_food_def)
  have mob: "f_mobile ?f0" by simp
  from inst [THEN conjunct2, THEN conjunct2, THEN conjunct2, THEN conjunct1, rule_format, OF mob]
  have "f_x (moveFood mobile_env ?f0) = 400.25" and "f_y (moveFood mobile_env ?f0) = 180"
    and "f_vx (moveFood mobile_env ?f0) = 1 / 4" and "f_vy (moveFood mobile_env ?f0) = 0"
    by (simp_all add: demo_food_def mobile_env_def)
  moreover have "f_value (moveFood mobile_env ?f0) = 10" and "f_mobile (moveFood mobile_env ?f0)"
    by (simp_all add: moveFood_def demo_food_def Let_def)
  ultimately have mv: "moveFood mobile_env ?f0 = ?f1"
    by (intro food.equality) (simp_all add: demo_food_def)
  have gm: "f_mobile ?g" by simp
  from tick_moves_items [of demo_env _ ?g, THEN conjunct2, THEN conjunct2, THEN conjunct2,
      THEN conjunct1, rule_format, OF gm]
  have g: "f_x (moveFood demo_env ?g) = 19.7 \<and> f_vx (moveFood demo_env ?g) = 0.5"
    by (simp add: demo_food_def demo_env_def)
  from r mv bounds g show ?thesis by blast
qed

text \<open>
  Claim C6 as stated fails twice: with 501 agents a turn of \<open>loop\<close> counts a tick in which a
  mobile food of velocity 0.25 stays where it is; and after the canvas has been made 300
  wide, a tick leaves a mobile food at 400.25, outside the canvas, only its velocity
  turned.
\<close>

theorem items_rest_or_leave_the_canvas:
  "length (agents crowd) = 501 \<and> running crowd
   \<and> f_mobile (foods crowd ! 0) \<and> f_vx (foods crowd ! 0) = 1 / 4
   \<and> tick (loop demo_env crowd) = tick crowd + 1
   \<and> foods (loop demo_env crowd) = foods crowd
   \<and> run mobile_env demo_inputs demo_sim [(300, 360)] =
       Some \<lparr> agents = [\<lparr> a_x = 40.049, a_y = 180, a_vx = 0.049, a_vy = 0, a_type = greedy,
                           a_wobble = 5, a_score = 0 \<rparr>],
              foods = [(demo_food 400.25 180 10)\<lparr> f_mobile := True, f_vx := - (1 / 4) \<rparr>],
              dangers = [demo_danger 400 180 10],
              running = True, tick = 1, score = 0, draws = 15 \<rparr>
   \<and> (300 :: real) < 400.25"
proof -
  have "length (agents crowd) = 501 \<and> running crowd
   \<and> f_mobile (foods crowd ! 0) \<and> f_vx (foods crowd ! 0) = 1 / 4
   \<and> tick (loop demo_env crowd) = tick crowd + 1
   \<and> foods (loop demo_env crowd) = foods crowd"
    by (simp add: loop_def crowd_def)
  with run_mobile_resized show ?thesis by simp
qed

subsection \<open>Steering\<close>

text \<open>
  The \<open>forEach\<close> of the greedy branch replaces the best food only by a strictly better one:
  it ends on the first food of the array with the highest score.
\<close>

lemma seekBest_snoc:
  "seekBest a (fs @ [f]) =
     (case seekBest a fs of None \<Rightarrow> Some (f, foodScore a f)
      | Some (best, bestScore) \<Rightarrow>
          if foodScore a f > bestScore then Some (f, foodScore a f) else Some (best, bestScore))"
  by (simp add: seekBest_def Let_def split: option.splits)

lemma seekBest_first:
  assumes "fs \<noteq> []"
  shows "\<exists>i < length fs. seekBest a fs = Some (fs ! i, foodScore a (fs ! i))
           \<and> (\<forall>j < length fs. foodScore a (fs ! j) \<le> foodScore a (fs ! i))
           \<and> (\<forall>j < i. foodScore a (fs ! j) < foodScore a (fs ! i))"
  using assms
proof (induction fs rule: rev_nonempty_induct)
  case (single f)
  show ?case by (simp add: seekBest_def)
next
  case (snoc f fs)
  then obtain i where i: "i < length fs"
    and sb: "seekBest a fs = Some (fs ! i, foodScore a (fs ! i))"
    and mx: "\<forall>j < length fs. foodScore a (fs ! j) \<le> foodScore a (fs ! i)"
    and fst: "\<forall>j < i. foodScore a (fs ! j) < foodScore a (fs ! i)"
    by blast
  show ?case
  proof (cases "foodScore a f > foodScore a (fs ! i)")
    case True
    have "seekBest a (fs @ [f]) = Some ((fs @ [f]) ! length fs, foodScore a ((fs @ [f]) ! length fs))"
      using True by (simp add: seekBest_snoc sb)
    moreover have "\<forall>j < length (fs @ [f]).
        foodScore a ((fs @ [f]) ! j) \<le> foodScore a ((fs @ [f]) ! length fs)"
    proof (intro allI impI)
      fix j assume "j < length (fs @ [f])"
      then consider "j < length fs" | "j = length fs" by fastforce
      then show "foodScore a ((fs @ [f]) ! j) \<le> foodScore a ((fs @ [f]) ! length fs)"
      proof cases
        case 1
        with mx have "foodScore a (fs ! j) \<le> foodScore a (fs ! i)" by blast
        with True 1 show ?thesis by (simp add: nth_append)
      next
        case 2
        then show ?thesis by simp
      qed
    qed
    moreover have "\<forall>j < length fs. foodScore a ((fs @ [f]) ! j) < foodScore a ((fs @ [f]) ! length fs)"
    proof (intro allI impI)
      fix j assume j: "j < length fs"
      with mx have "foodScore a (fs ! j) \<le> foodScore a (fs ! i)" by blast
      with True j show "foodScore a ((fs @ [f]) ! j) < foodScore a ((fs @ [f]) ! length fs)"
        by (simp add: nth_append)
    qed
    ultimately show ?thesis
      by (intro exI [of _ "length fs"]) simp
  next
    case False
    have "seekBest a (fs @ [f]) = Some ((fs @ [f]) ! i, foodScore a ((fs @ [f]) ! i))"
      using False i by (simp add: seekBest_snoc sb nth_append)
    moreover have "\<forall>j < length (fs @ [f]). foodScore a ((fs @ [f]) ! j) \<le> foodScore a ((fs @ [f]) ! i)"
      using False mx i by (auto simp: nth_append less_Suc_eq)
    moreover have "\<forall>j < i. foodScore a ((fs @ [f]) ! j) < foodScore a ((fs @ [f]) ! i)"
      using fst i by (auto simp: nth_append)
    ultimately show ?thesis using i
      by (intro exI [of _ i]) simp
  qed
qed

lemma hypot_sq: "hypot dx dy * hypot dx dy = dx * dx + dy * dy"
  by (simp add: hypot_def)

lemma towards:
  "dx / (if hypot dx dy = 0 then 1 else hypot dx dy) * c * dx
   + dy / (if hypot dx dy = 0 then 1 else hypot dx dy) * c * dy = c * hypot dx dy"
proof (cases "hypot dx dy = 0")
  case True
  then have "dx * dx + dy * dy = 0" using hypot_sq [of dx dy] by simp
  then have "dx = 0" and "dy = 0"
    by (simp_all add: sum_squares_eq_zero_iff)
  with True show ?thesis by simp
next
  case False
  have "dx / hypot dx dy * c * dx + dy / hypot dx dy * c * dy
      = c * (dx * dx + dy * dy) / hypot dx dy"
    by (simp add: algebra_simps add_divide_distrib)
  also have "\<dots> = c * hypot dx dy"
    using False by (simp add: hypot_sq [symmetric])
  finally show ?thesis using False by simp
qed

text \<open>
  Claim C7, as the code has it. With at least one food, a greedy agent targets the first
  food of the array among those maximising \<open>value - 0.02 * distance\<close> (every food scores at
  most as much, every earlier food strictly less) and adds 0.05 times the unit vector
  toward it to its velocity: the change of velocity has length 0.05 along the offset to
  that food. The hazards play no part: the steering is the one with no hazard at all.
\<close>

theorem greedy_targets_best_food:
  assumes "a_type a = greedy" and "fs \<noteq> []"
  shows "steer E k a fs ds = steer E k a fs []
       \<and> (\<exists>i < length fs.
            (\<forall>j < length fs. foodScore a (fs ! j) \<le> foodScore a (fs ! i))
            \<and> (\<forall>j < i. foodScore a (fs ! j) < foodScore a (fs ! i))
            \<and> steer E k a fs ds =
                (a\<lparr> a_vx := a_vx a + (f_x (fs ! i) - a_x a)
                          / (if dist_pt (f_pos (fs ! i)) (a_pos a) = 0 then 1
                             else dist_pt (f_pos (fs ! i)) (a_pos a)) * 0.05,
                    a_vy := a_vy a + (f_y (fs ! i) - a_y a)
                          / (if dist_pt (f_pos (fs ! i)) (a_pos a) = 0 then 1
                             else dist_pt (f_pos (fs ! i)) (a_pos a)) * 0.05 \<rparr>, k)
            \<and> (a_vx (fst (steer E k a fs ds)) - a_vx a) * (f_x (fs ! i) - a_x a)
              + (a_vy (fst (steer E k a fs ds)) - a_vy a) * (f_y (fs ! i) - a_y a)
              = 0.05 * dist_pt (f_pos (fs ! i)) (a_pos a))"
proof
  show "steer E k a fs ds = steer E k a fs []"
    using assms(1) by (simp add: steer_def)
  from seekBest_first [OF assms(2), of a] obtain i where
    i: "i < length fs" and sb: "seekBest a fs = Some (fs ! i, foodScore a (fs ! i))"
    and mx: "\<forall>j < length fs. foodScore a (fs ! j) \<le> foodScore a (fs ! i)"
    and fst: "\<forall>j < i. foodScore a (fs ! j) < foodScore a (fs ! i)"
    by blast
  let ?best = "fs ! i"
  have d: "dist_pt (f_pos ?best) (a_pos a) = hypot (f_x ?best - a_x a) (f_y ?best - a_y a)"
    by (simp add: dist_pt_def f_pos_def a_pos_def Let_def)
  have st: "steer E k a fs ds =
                (a\<lparr> a_vx := a_vx a + (f_x ?best - a_x a)
                          / (if dist_pt (f_pos ?best) (a_pos a) = 0 then 1
                             else dist_pt (f_pos ?best) (a_pos a)) * 0.05,
                    a_vy := a_vy a + (f_y ?best - a_y a)
                          / (if dist_pt (f_pos ?best) (a_pos a) = 0 then 1
                             else dist_pt (f_pos ?best) (a_pos a)) * 0.05 \<rparr>, k)"
    using assms(1) unfolding d by (simp add: steer_def steerGreedy_def sb Let_def)
  have "(a_vx (fst (steer E k a fs ds)) - a_vx a) * (f_x ?best - a_x a)
              + (a_vy (fst (steer E k a fs ds)) - a_vy a) * (f_y ?best - a_y a)
              = 0.05 * dist_pt (f_pos ?best) (a_pos a)"
    unfolding st d using towards [of "f_x ?best - a_x a" "f_y ?best - a_y a" "0.05"]
    by simp
  with i mx fst st show "\<exists>i < length fs.
            (\<forall>j < length fs. foodScore a (fs ! j) \<le> foodScore a (fs ! i))
            \<and> (\<forall>j < i. foodScore a (fs ! j) < foodScore a (fs ! i))
            \<and> steer E k a fs ds =
                (a\<lparr> a_vx := a_vx a + (f_x (fs ! i) - a_x a)
                          / (if dist_pt (f_pos (fs ! i)) (a_pos a) = 0 then 1
                             else dist_pt (f_pos (fs ! i)) (a_pos a)) * 0.05,
                    a_vy := a_vy a + (f_y (fs ! i) - a_y a)
                          / (if dist_pt (f_pos (fs ! i)) (a_pos a) = 0 then 1
                             else dist_pt (f_pos (fs ! i)) (a_pos a)) * 0.05 \<rparr>, k)
            \<and> (a_vx (fst (steer E k a fs ds)) - a_vx a) * (f_x (fs ! i) - a_x a)
              + (a_vy (fst (steer E k a fs ds)) - a_vy a) * (f_y (fs ! i) - a_y a)
              = 0.05 * dist_pt (f_pos (fs ! i)) (a_pos a)"
    by blast
qed

text \<open>
  Two foods of equal score, to the right and to the left: the agent turns to the first.
\<close>

theorem greedy_targets_best_food_witness:
  "a_type demo_agent = greedy
   \<and> foodScore demo_agent (demo_food 200 100 10) = 8
   \<and> foodScore demo_agent (demo_food 0 100 10) = 8
   \<and> steer demo_env 0 demo_agent [demo_food 200 100 10, demo_food 0 100 10] [demo_danger 100 90 6]
       = (demo_agent\<lparr>a_vx := 0.05\<rparr>, 0)"
proof -
  let ?fs = "[demo_food 200 100 10, demo_food 0 100 10]"
  let ?ds = "[demo_danger 100 90 6]"
  have g: "a_type demo_agent = greedy" by (simp add: demo_agent_def)
  have ne: "?fs \<noteq> []" by simp
  have s0: "foodScore demo_agent (demo_food 200 100 10) = 8"
    and s1: "foodScore demo_agent (demo_food 0 100 10) = 8"
    by (simp_all add: foodScore_def dist_pt_def hypot_axis a_pos_def f_pos_def demo_agent_def
        demo_food_def Let_def)
  from greedy_targets_best_food [OF g ne, of demo_env 0 ?ds, THEN conjunct2]
  obtain i where i: "i < length ?fs"
    and fst: "\<forall>j < i. foodScore demo_agent (?fs ! j) < foodScore demo_agent (?fs ! i)"
    and st: "steer demo_env 0 demo_agent ?fs ?ds =
                (demo_agent\<lparr> a_vx := a_vx demo_agent + (f_x (?fs ! i) - a_x demo_agent)
                          / (if dist_pt (f_pos (?fs ! i)) (a_pos demo_agent) = 0 then 1
                             else dist_pt (f_pos (?fs ! i)) (a_pos demo_agent)) * 0.05,
                    a_vy := a_vy demo_agent + (f_y (?fs ! i) - a_y demo_agent)
                          / (if dist_pt (f_pos (?fs ! i)) (a_pos demo_agent) = 0 then 1
                             else dist_pt (f_pos (?fs ! i)) (a_pos demo_agent)) * 0.05 \<rparr>, 0)"
    by blast
  have "i = 0"
  proof (rule ccontr)
    assume "i \<noteq> 0"
    with i have "i = 1" by simp
    with fst have "foodScore demo_agent (?fs ! 0) < foodScore demo_agent (?fs ! 1)" by simp
    then show False by (simp add: s0 s1)
  qed
  then have "steer demo_env 0 demo_agent ?fs ?ds = (demo_agent\<lparr>a_vx := 0.05\<rparr>, 0)"
    using st by (simp add: dist_pt_def hypot_axis a_pos_def f_pos_def demo_agent_def demo_food_def
        Let_def)
  with g s0 s1 show ?thesis by blast
qed

text \<open>
  Claim C7 as stated fails in its exception: with a hazard 5 pixels away, on the line to
  the food, the agent steers exactly as with no hazard.
\<close>

theorem greedy_ignores_adjacent_hazard:
  "a_type demo_agent = greedy
   \<and> dist_pt (a_pos demo_agent) (d_pos (demo_danger 105 100 6)) = 5
   \<and> steer demo_env 0 demo_agent [demo_food 200 100 10] [demo_danger 105 100 6]
       = (demo_agent\<lparr>a_vx := 0.05\<rparr>, 0)
   \<and> steer demo_env 0 demo_agent [demo_food 200 100 10] []
       = (demo_agent\<lparr>a_vx := 0.05\<rparr>, 0)"
  by (simp add: steer_def steerGreedy_def seekBest_def foodScore_def dist_pt_def hypot_def
      a_pos_def f_pos_def d_pos_def demo_agent_def demo_food_def demo_danger_def Let_def)

text \<open>
  The \<open>forEach\<close> of the cautious branch replaces the nearest hazard only by a strictly
  nearer one: it ends on the first hazard of the array at the least distance.
\<close>

lemma nearest_snoc:
  "nearest a (ds @ [d]) =
     (case nearest a ds of None \<Rightarrow> Some (d, dist_pt (a_pos a) (d_pos d))
      | Some (near, nd) \<Rightarrow>
          if dist_pt (a_pos a) (d_pos d) < nd then Some (d, dist_pt (a_pos a) (d_pos d))
          else Some (near, nd))"
  by (simp add: nearest_def Let_def split: option.splits)

lemma nearest_first:
  assumes "ds \<noteq> []"
  shows "\<exists>i < length ds. nearest a ds = Some (ds ! i, dist_pt (a_pos a) (d_pos (ds ! i)))
           \<and> (\<forall>j < length ds. dist_pt (a_pos a) (d_pos (ds ! i)) \<le> dist_pt (a_pos a) (d_pos (ds ! j)))
           \<and> (\<forall>j < i. dist_pt (a_pos a) (d_pos (ds ! i)) < dist_pt (a_pos a) (d_pos (ds ! j)))"
  using assms
proof (induction ds rule: rev_nonempty_induct)
  case (single d)
  show ?case by (simp add: nearest_def)
next
  case (snoc d ds)
  let ?D = "\<lambda>d. dist_pt (a_pos a) (d_pos d)"
  from snoc obtain i where i: "i < length ds"
    and nr: "nearest a ds = Some (ds ! i, ?D (ds ! i))"
    and mn: "\<forall>j < length ds. ?D (ds ! i) \<le> ?D (ds ! j)"
    and fst: "\<forall>j < i. ?D (ds ! i) < ?D (ds ! j)"
    by blast
  show ?case
  proof (cases "?D d < ?D (ds ! i)")
    case True
    have "nearest a (ds @ [d]) = Some ((ds @ [d]) ! length ds, ?D ((ds @ [d]) ! length ds))"
      using True by (simp add: nearest_snoc nr)
    moreover have "\<forall>j < length (ds @ [d]). ?D ((ds @ [d]) ! length ds) \<le> ?D ((ds @ [d]) ! j)"
    proof (intro allI impI)
      fix j assume "j < length (ds @ [d])"
      then consider "j < length ds" | "j = length ds" by fastforce
      then show "?D ((ds @ [d]) ! length ds) \<le> ?D ((ds @ [d]) ! j)"
      proof cases
        case 1
        with mn have "?D (ds ! i) \<le> ?D (ds ! j)" by blast
        with True 1 show ?thesis by (simp add: nth_append)
      next
        case 2
        then show ?thesis by simp
      qed
    qed
    moreover have "\<forall>j < length ds. ?D ((ds @ [d]) ! length ds) < ?D ((ds @ [d]) ! j)"
    proof (intro allI impI)
      fix j assume j: "j < length ds"
      with mn have "?D (ds ! i) \<le> ?D (ds ! j)" by blast
      with True j show "?D ((ds @ [d]) ! length ds) < ?D ((ds @ [d]) ! j)"
        by (simp add: nth_append)
    qed
    ultimately show ?thesis
      by (intro exI [of _ "length ds"]) simp
  next
    case False
    have "nearest a (ds @ [d]) = Some ((ds @ [d]) ! i, ?D ((ds @ [d]) ! i))"
      using False i by (simp add: nearest_snoc nr nth_append)
    moreover have "\<forall>j < length (ds @ [d]). ?D ((ds @ [d]) ! i) \<le> ?D ((ds @ [d]) ! j)"
      using False mn i by (auto simp: nth_append less_Suc_eq)
    moreover have "\<forall>j < i. ?D ((ds @ [d]) ! i) < ?D ((ds @ [d]) ! j)"
      using fst i by (auto simp: nth_append)
    ultimately show ?thesis using i
      by (intro exI [of _ i]) simp
  qed
qed

lemma flee_far:
  assumes "\<forall>d \<in> set ds. 120 \<le> dist_pt (a_pos a) (d_pos d)"
  shows "flee a ds = a"
proof (cases "ds = []")
  case True
  then show ?thesis by (simp add: flee_def nearest_def)
next
  case False
  from nearest_first [OF False, of a] obtain i where
    "i < length ds" and "nearest a ds = Some (ds ! i, dist_pt (a_pos a) (d_pos (ds ! i)))"
    by blast
  moreover from this assms have "120 \<le> dist_pt (a_pos a) (d_pos (ds ! i))" by simp
  ultimately show ?thesis by (simp add: flee_def)
qed

lemma flee_near:
  assumes "\<exists>d \<in> set ds. dist_pt (a_pos a) (d_pos d) < 120"
  shows "\<exists>i < length ds.
           (\<forall>j < length ds. dist_pt (a_pos a) (d_pos (ds ! i)) \<le> dist_pt (a_pos a) (d_pos (ds ! j)))
           \<and> (\<forall>j < i. dist_pt (a_pos a) (d_pos (ds ! i)) < dist_pt (a_pos a) (d_pos (ds ! j)))
           \<and> flee a ds = a\<lparr> a_vx := a_vx a + (a_x a - d_x (ds ! i)) * 0.003,
                              a_vy := a_vy a + (a_y a - d_y (ds ! i)) * 0.003 \<rparr>"
proof -
  from assms have ne: "ds \<noteq> []" by auto
  from nearest_first [OF ne, of a] obtain i where
    i: "i < length ds"
    and nr: "nearest a ds = Some (ds ! i, dist_pt (a_pos a) (d_pos (ds ! i)))"
    and mn: "\<forall>j < length ds. dist_pt (a_pos a) (d_pos (ds ! i)) \<le> dist_pt (a_pos a) (d_pos (ds ! j))"
    and fst: "\<forall>j < i. dist_pt (a_pos a) (d_pos (ds ! i)) < dist_pt (a_pos a) (d_pos (ds ! j))"
    by blast
  from assms obtain j where "j < length ds" and "dist_pt (a_pos a) (d_pos (ds ! j)) < 120"
    by (auto simp: in_set_conv_nth)
  with mn have "dist_pt (a_pos a) (d_pos (ds ! i)) < 120" by fastforce
  then have "flee a ds = a\<lparr> a_vx := a_vx a + (a_x a - d_x (ds ! i)) * 0.003,
                              a_vy := a_vy a + (a_y a - d_y (ds ! i)) * 0.003 \<rparr>"
    by (simp add: flee_def nr)
  with i mn fst show ?thesis by blast
qed

lemma flee_keeps: "a_x (flee a ds) = a_x a" "a_y (flee a ds) = a_y a"
  by (simp_all add: flee_def split: option.splits prod.splits)

lemma sample_in_range:
  assumes "fs \<noteq> []"
  shows "nat \<lfloor>Math_random E k * real (length fs)\<rfloor> < length fs"
proof -
  let ?r = "Math_random E k" and ?n = "real (length fs)"
  have n: "0 < ?n" using assms by simp
  have r: "0 \<le> ?r" "?r < 1" by (simp_all add: Math_random_def)
  have "?r * ?n < 1 * ?n" using r n by (intro mult_strict_right_mono) simp_all
  then have "\<lfloor>?r * ?n\<rfloor> < int (length fs)" by (simp add: floor_less_iff)
  moreover have "0 \<le> \<lfloor>?r * ?n\<rfloor>" using r n by simp
  ultimately show ?thesis by linarith
qed

text \<open>
  Claim C8, as the code has it. A cautious agent adds to its velocity a push \<open>(px, py)\<close>:
  0.003 times its offset from the first hazard of the array at the least distance when
  some hazard is nearer than 120, nothing when none is. Then, whether or not it was
  pushed, when there is a food it adds 0.0008 times the offset to the food at index
  \<open>floor (Math.random() * foods.length)\<close>, which is an index of the array, and one draw is
  used; with no food nothing is added and no draw used. The two changes add up; neither
  has priority.
\<close>

theorem cautious_flees_and_is_pulled:
  assumes "a_type a = cautious"
  shows "\<exists>px py.
         ((\<forall>d \<in> set ds. 120 \<le> dist_pt (a_pos a) (d_pos d)) \<longrightarrow> px = 0 \<and> py = 0)
       \<and> ((\<exists>d \<in> set ds. dist_pt (a_pos a) (d_pos d) < 120) \<longrightarrow>
            (\<exists>i < length ds.
               (\<forall>j < length ds. dist_pt (a_pos a) (d_pos (ds ! i)) \<le> dist_pt (a_pos a) (d_pos (ds ! j)))
               \<and> (\<forall>j < i. dist_pt (a_pos a) (d_pos (ds ! i)) < dist_pt (a_pos a) (d_pos (ds ! j)))
               \<and> px = (a_x a - d_x (ds ! i)) * 0.003
               \<and> py = (a_y a - d_y (ds ! i)) * 0.003))
       \<and> (fs = [] \<longrightarrow>
            steer E k a fs ds = (a\<lparr> a_vx := a_vx a + px, a_vy := a_vy a + py \<rparr>, k))
       \<and> (fs \<noteq> [] \<longrightarrow>
            nat \<lfloor>Math_random E k * real (length fs)\<rfloor> < length fs
            \<and> steer E k a fs ds =
                (a\<lparr> a_vx := a_vx a + px
                          + (f_x (fs ! nat \<lfloor>Math_random E k * real (length fs)\<rfloor>) - a_x a) * 0.0008,
                    a_vy := a_vy a + py
                          + (f_y (fs ! nat \<lfloor>Math_random E k * real (length fs)\<rfloor>) - a_y a) * 0.0008 \<rparr>,
                 k + 1))"
proof -
  let ?D = "\<lambda>d. dist_pt (a_pos a) (d_pos d)"
  let ?idx = "nat \<lfloor>Math_random E k * real (length fs)\<rfloor>"
  have st0: "steer E k a [] ds = (flee a ds, k)"
    using assms by (simp add: steer_def steerCautious_def attract_def)
  have st1: "steer E k a fs ds =
      ((flee a ds)\<lparr> a_vx := a_vx (flee a ds) + (f_x (fs ! ?idx) - a_x a) * 0.0008,
                    a_vy := a_vy (flee a ds) + (f_y (fs ! ?idx) - a_y a) * 0.0008 \<rparr>, k + 1)"
    if "fs \<noteq> []"
    using assms that by (simp add: steer_def steerCautious_def attract_def Let_def flee_keeps)
  show ?thesis
  proof (cases "\<exists>d \<in> set ds. ?D d < 120")
    case True
    from flee_near [OF True] obtain i where i: "i < length ds"
      and mn: "\<forall>j < length ds. ?D (ds ! i) \<le> ?D (ds ! j)"
      and fst: "\<forall>j < i. ?D (ds ! i) < ?D (ds ! j)"
      and fl: "flee a ds = a\<lparr> a_vx := a_vx a + (a_x a - d_x (ds ! i)) * 0.003,
                               a_vy := a_vy a + (a_y a - d_y (ds ! i)) * 0.003 \<rparr>"
      by blast
    have far: "\<not> (\<forall>d \<in> set ds. 120 \<le> ?D d)" using True by fastforce
    show ?thesis
    proof (rule exI [of _ "(a_x a - d_x (ds ! i)) * 0.003"],
        rule exI [of _ "(a_y a - d_y (ds ! i)) * 0.003"], intro conjI impI)
      show "\<exists>i' < length ds.
               (\<forall>j < length ds. ?D (ds ! i') \<le> ?D (ds ! j))
               \<and> (\<forall>j < i'. ?D (ds ! i') < ?D (ds ! j))
               \<and> (a_x a - d_x (ds ! i)) * 0.003 = (a_x a - d_x (ds ! i')) * 0.003
               \<and> (a_y a - d_y (ds ! i)) * 0.003 = (a_y a - d_y (ds ! i')) * 0.003"
        using i mn fst by blast
    qed (use far st0 st1 fl sample_in_range [of fs E k] in simp_all)
  next
    case False
    then have far: "\<forall>d \<in> set ds. 120 \<le> ?D d" by fastforce
    have fl: "flee a ds = a" using far by (rule flee_far)
    show ?thesis
    proof (rule exI [of _ 0], rule exI [of _ 0], intro conjI impI)
      show "\<exists>i < length ds.
               (\<forall>j < length ds. ?D (ds ! i) \<le> ?D (ds ! j))
               \<and> (\<forall>j < i. ?D (ds ! i) < ?D (ds ! j))
               \<and> 0 = (a_x a - d_x (ds ! i)) * 0.003
               \<and> 0 = (a_y a - d_y (ds ! i)) * 0.003"
        if "\<exists>d \<in> set ds. ?D d < 120"
        using that False by blast
    qed (use st0 st1 fl sample_in_range [of fs E k] in simp_all)
  qed
qed

text \<open>
  Claim C8 as stated fails: with a hazard 10 pixels to the right and a food 100 pixels to
  the right, the pull toward the food is applied although a hazard is within the radius,
  and outweighs the push: the agent accelerates to the right, toward the hazard.
\<close>

theorem cautious_pulled_toward_hazard:
  "dist_pt (a_pos (demo_agent\<lparr>a_type := cautious\<rparr>)) (d_pos (demo_danger 110 100 6)) = 10
   \<and> steer demo_env 0 (demo_agent\<lparr>a_type := cautious\<rparr>) [demo_food 200 100 10]
        [demo_danger 110 100 6]
       = (demo_agent\<lparr>a_type := cautious, a_vx := 0.05\<rparr>, 1)"
  by (simp add: steer_def steerCautious_def attract_def flee_def nearest_def dist_pt_def hypot_def
      a_pos_def d_pos_def Math_random_def demo_agent_def demo_food_def demo_danger_def
      demo_env_def Let_def)

text \<open>
  Two hazards at distance 10, right and left, and three foods, the draw 1/2 picking the
  second: the agent is pushed away from the first hazard and pulled to the second food.
\<close>

theorem cautious_flees_and_is_pulled_witness:
  "a_type (demo_agent\<lparr>a_type := cautious\<rparr>) = cautious
   \<and> dist_pt (a_pos (demo_agent\<lparr>a_type := cautious\<rparr>)) (d_pos (demo_danger 110 100 6)) = 10
   \<and> dist_pt (a_pos (demo_agent\<lparr>a_type := cautious\<rparr>)) (d_pos (demo_danger 90 100 6)) = 10
   \<and> nat \<lfloor>Math_random demo_env 0 * real (length [demo_food 200 100 10, demo_food 100 300 6,
          demo_food 50 100 2])\<rfloor> = 1
   \<and> steer demo_env 0 (demo_agent\<lparr>a_type := cautious\<rparr>)
        [demo_food 200 100 10, demo_food 100 300 6, demo_food 50 100 2]
        [demo_danger 110 100 6, demo_danger 90 100 6]
       = (demo_agent\<lparr>a_type := cautious, a_vx := - 0.03, a_vy := 0.16\<rparr>, 1)"
proof -
  let ?a = "demo_agent\<lparr>a_type := cautious\<rparr>"
  let ?fs = "[demo_food 200 100 10, demo_food 100 300 6, demo_food 50 100 2]"
  let ?ds = "[demo_danger 110 100 6, demo_danger 90 100 6]"
  let ?D = "\<lambda>d. dist_pt (a_pos ?a) (d_pos d)"
  have c: "a_type ?a = cautious" by simp
  have d0: "?D (demo_danger 110 100 6) = 10" and d1: "?D (demo_danger 90 100 6) = 10"
    by (simp_all add: dist_pt_def hypot_axis a_pos_def d_pos_def demo_agent_def demo_danger_def
        Let_def)
  have idx: "nat \<lfloor>Math_random demo_env 0 * real (length ?fs)\<rfloor> = 1"
    by (simp add: Math_random_def demo_env_def)
  have near: "\<exists>d \<in> set ?ds. ?D d < 120" using d0 by simp
  have ne: "?fs \<noteq> []" by simp
  from cautious_flees_and_is_pulled [OF c, of ?ds ?fs demo_env 0]
  obtain px py where
    push: "(\<exists>d \<in> set ?ds. ?D d < 120) \<longrightarrow>
            (\<exists>i < length ?ds.
               (\<forall>j < length ?ds. ?D (?ds ! i) \<le> ?D (?ds ! j))
               \<and> (\<forall>j < i. ?D (?ds ! i) < ?D (?ds ! j))
               \<and> px = (a_x ?a - d_x (?ds ! i)) * 0.003
               \<and> py = (a_y ?a - d_y (?ds ! i)) * 0.003)"
    and pull: "?fs \<noteq> [] \<longrightarrow>
            nat \<lfloor>Math_random demo_env 0 * real (length ?fs)\<rfloor> < length ?fs
            \<and> steer demo_env 0 ?a ?fs ?ds =
                (?a\<lparr> a_vx := a_vx ?a + px
                          + (f_x (?fs ! nat \<lfloor>Math_random demo_env 0 * real (length ?fs)\<rfloor>) - a_x ?a) * 0.0008,
                    a_vy := a_vy ?a + py
                          + (f_y (?fs ! nat \<lfloor>Math_random demo_env 0 * real (length ?fs)\<rfloor>) - a_y ?a) * 0.0008 \<rparr>,
                 1)"
    by auto
  from push near obtain i where i: "i < length ?ds"
    and fst: "\<forall>j < i. ?D (?ds ! i) < ?D (?ds ! j)"
    and px: "px = (a_x ?a - d_x (?ds ! i)) * 0.003"
    and py: "py = (a_y ?a - d_y (?ds ! i)) * 0.003"
    by blast
  have "i = 0"
  proof (rule ccontr)
    assume "i \<noteq> 0"
    with i have "i = 1" by simp
    with fst have "?D (?ds ! 1) < ?D (?ds ! 0)" by simp
    then show False using d0 d1 by simp
  qed
  then have p: "px = - 0.03" "py = 0"
    using px py by (simp_all add: demo_agent_def demo_danger_def)
  from pull ne have "steer demo_env 0 ?a ?fs ?ds =
                (?a\<lparr> a_vx := a_vx ?a + px
                          + (f_x (?fs ! nat \<lfloor>Math_random demo_env 0 * real (length ?fs)\<rfloor>) - a_x ?a) * 0.0008,
                    a_vy := a_vy ?a + py
                          + (f_y (?fs ! nat \<lfloor>Math_random demo_env 0 * real (length ?fs)\<rfloor>) - a_y ?a) * 0.0008 \<rparr>,
                 1)"
    by blast
  then have "steer demo_env 0 ?a ?fs ?ds
       = (demo_agent\<lparr>a_type := cautious, a_vx := - 0.03, a_vy := 0.16\<rparr>, 1)"
    unfolding idx p by (simp add: demo_agent_def demo_food_def)
  with c d0 d1 idx show ?thesis by blast
qed

subsection \<open>Spawning\<close>

lemma pushAgents_shape:
  "map a_type (fst (pushAgents E ty n st)) = map a_type (fst st) @ replicate n ty
   \<and> snd (pushAgents E ty n st) = snd st + 5 * n"
proof (induction n)
  case 0
  then show ?case by (simp add: pushAgents_0)
next
  case (Suc n)
  have "a_type (newAgent E j ty) = ty" for j by (simp add: newAgent_def)
  with Suc show ?case
    by (simp add: pushAgents_Suc split_beta replicate_append_same)
qed

lemma pushFoods_shape:
  "map f_value (fst (pushFoods E n st)) = map f_value (fst st) @ map tier [0..<n]
   \<and> snd (pushFoods E n st) = snd st + 5 * n"
proof (induction n)
  case 0
  then show ?case by (simp add: pushFoods_0)
next
  case (Suc n)
  have "f_value (newFood E j n) = tier n" for j by (simp add: newFood_def)
  with Suc show ?case by (simp add: pushFoods_Suc split_beta)
qed

lemma pushDangers_shape:
  "map d_severity (fst (pushDangers E n st)) = map d_severity (fst st) @ map tier [0..<n]
   \<and> snd (pushDangers E n st) = snd st + 5 * n"
proof (induction n)
  case 0
  then show ?case by (simp add: pushDangers_0)
next
  case (Suc n)
  have "d_severity (newDanger E j n) = tier n" for j by (simp add: newDanger_def)
  with Suc show ?case by (simp add: pushDangers_Suc split_beta)
qed

lemma spawned_types:
  "map a_type (agents (spawned E g c e f d s)) =
     replicate g greedy @ replicate c cautious @ replicate e explorer"
  by (simp add: spawned_def Let_def split_beta pushAgents_shape)

lemma spawned_values:
  "map f_value (foods (spawned E g c e f d s)) = map tier [0..<f]
   \<and> map d_severity (dangers (spawned E g c e f d s)) = map tier [0..<d]
   \<and> tick (spawned E g c e f d s) = 0 \<and> score (spawned E g c e f d s) = 0
   \<and> running (spawned E g c e f d s) = running s
   \<and> draws (spawned E g c e f d s) = draws s + 5 * (g + c + e + f + d)"
  by (simp add: spawned_def Let_def split_beta pushAgents_shape pushFoods_shape pushDangers_shape)

lemma stepOnce_tick: "tick (stepOnce E s) = tick s + 1"
  by (simp add: stepOnce_def Let_def split_beta)

lemma loop_tick: "running s \<Longrightarrow> tick (loop E s) = tick s + 1"
  by (simp add: loop_def stepOnce_tick)

text \<open>
  The numbers of agents, foods and hazards asked for, as \<open>spawnAll\<close> reads them.
\<close>

lemma agentN_cases:
  "agentN I = (case agentCount I of
       Fin r \<Rightarrow> if r = 0 then Fin 5 else Fin (max 1 (of_int \<lfloor>r\<rfloor>))
     | NaN \<Rightarrow> Fin 5 | PInf \<Rightarrow> PInf | NInf \<Rightarrow> Fin 1)"
  by (simp add: agentN_def or_default_def split: number.splits)

lemma foodN_cases:
  "foodN I = (case foodCount I of
       Fin r \<Rightarrow> if r = 0 then Fin 9 else Fin (max 0 (of_int \<lfloor>r\<rfloor>))
     | NaN \<Rightarrow> Fin 9 | PInf \<Rightarrow> PInf | NInf \<Rightarrow> Fin 0)"
  by (simp add: foodN_def or_default_def split: number.splits)

lemma dangerN_cases:
  "dangerN I = (case dangerCount I of
       Fin r \<Rightarrow> if r = 0 then Fin 5 else Fin (max 0 (of_int \<lfloor>r\<rfloor>))
     | NaN \<Rightarrow> Fin 5 | PInf \<Rightarrow> PInf | NInf \<Rightarrow> Fin 0)"
  by (simp add: dangerN_def or_default_def split: number.splits)

text \<open>
  A whole number from 1 to below \<open>2 ^ 53\<close> is a double.
\<close>

lemma to_double_int:
  assumes "1 \<le> k" and "k < 2 ^ 53"
  shows "to_double (of_int k) = Fin (of_int k)"
proof -
  define b where "b = \<lfloor>log 2 (of_int k)\<rfloor>"
  have kpos: "0 < (of_int k :: real)" using assms(1) by simp
  have lo: "pow2 b \<le> \<bar>of_int k\<bar>" and hi: "\<bar>of_int k :: real\<bar> < pow2 (b + 1)"
    using kpos floor_log_eq_powr_iff [of "of_int k" 2 b] unfolding b_def pow2_powr by simp_all
  have b0: "0 \<le> b"
    unfolding b_def using assms(1) by simp
  have k53: "(of_int k :: real) < 2 ^ 53"
    using assms(2) by (metis of_int_less_iff of_int_numeral of_int_power)
  have "pow2 b \<le> of_int k" using lo kpos by simp
  with k53 have "(2::real) powr of_int b < 2 ^ 53" unfolding pow2_powr by linarith
  also have "(2::real) ^ 53 = 2 powr 53" by simp
  finally have pb: "(2::real) powr of_int b < 2 powr 53" .
  have "(of_int b :: real) < 53" using powr_less_cancel [OF pb] by simp
  then have b52: "b \<le> 52" by linarith
  define n where "n = nat (52 - b)"
  have p: "pow2 (b - 52) = 1 / 2 ^ n"
    using b52 by (cases "b = 52") (simp_all add: pow2_def n_def)
  have "of_int k / pow2 (b - 52) = (of_int (k * 2 ^ n) :: real)"
    unfolding p by simp
  then have t: "ties_to_even (of_int k / pow2 (b - 52)) = k * 2 ^ n"
    by (simp only: ties_to_even_int)
  have y: "of_int (k * 2 ^ n) * pow2 (b - 52) = (of_int k :: real)"
    unfolding p by simp
  have p1024: "pow2 1024 = 2 ^ 1024" by (simp add: pow2_def)
  have "(2::real) ^ 53 \<le> 2 ^ 1024" by (rule power_increasing) simp_all
  with k53 have "(of_int k :: real) < 2 ^ 1024" by (rule less_le_trans)
  then have small: "\<not> pow2 1024 \<le> \<bar>of_int k :: real\<bar>"
    unfolding p1024 using kpos by simp
  show ?thesis
    using to_double_eval [OF lo hi] b0 small unfolding t y by (simp add: Let_def)
qed

lemma off_mix:
  assumes "pGreedy I = NaN \<or> pGreedy I = Fin 0" and "pCautious I = NaN \<or> pCautious I = Fin 0"
    and "pExplorer I = NaN \<or> pExplorer I = Fin 0"
  shows "mixTotal I = Fin 100"
  using assms by (auto simp: mixTotal_def or_default_def Let_def)

lemma off_counts:
  assumes "pGreedy I = NaN \<or> pGreedy I = Fin 0" and "pCautious I = NaN \<or> pCautious I = Fin 0"
    and "pExplorer I = NaN \<or> pExplorer I = Fin 0"
    and "agentN I = Fin (of_int k)" and "k < 2 ^ 53"
  shows "greedyN I = Fin 0 \<and> cautiousN I = Fin 0 \<and> explorerN I = Fin (of_int k)"
proof -
  have "1 \<le> agentN_real" if "agentN I = Fin agentN_real" for agentN_real
    using that by (auto simp: agentN_cases split: number.splits if_splits)
  with assms(4) have k1: "1 \<le> k" by fastforce
  have g: "greedyN I = Fin 0"
    using assms(1,4) by (auto simp: greedyN_def off_mix [OF assms(1-3)] or_default_def)
  have c: "cautiousN I = Fin 0"
    using assms(2,4) by (auto simp: cautiousN_def off_mix [OF assms(1-3)] or_default_def)
  have "explorerN I = Fin (of_int k)"
    using to_double_int [OF k1 assms(5)] k1
    by (simp add: explorerN_def g c assms(4) num_sub_def)
  with g c show ?thesis by blast
qed

lemma iters_None: "iters n = None \<longleftrightarrow> n = PInf \<or> (\<exists>r. n = Fin r \<and> 2 ^ 53 < r)"
  by (cases n) auto

lemma spawnAll_returns:
  "(\<exists>s'. spawnAll E I s = Some s') \<longleftrightarrow>
     (\<exists>g c e f d. iters (greedyN I) = Some g \<and> iters (cautiousN I) = Some c
        \<and> iters (explorerN I) = Some e \<and> iters (foodN I) = Some f \<and> iters (dangerN I) = Some d
        \<and> g + c + e \<le> max_length \<and> f \<le> max_length \<and> d \<le> max_length)"
  unfolding spawnAll_def by (auto split: option.splits)

text \<open>
  Claim C9, as the code has it. \<open>spawnAll\<close> raises no error on any content of the input
  fields; it coerces them. The number of agents asked for becomes 5 when it is \<open>NaN\<close> or 0,
  1 when it is below 1 or \<open>-Infinity\<close>, and its floor otherwise; the numbers of foods and
  hazards become 9 and 5 when \<open>NaN\<close> or 0, 0 when negative, and their floor otherwise;
  \<open>Infinity\<close> stays \<open>Infinity\<close>. Proportions that are all \<open>NaN\<close> or 0 are taken out of a total
  of 100, and then, with counts that arrays can hold, \<open>spawnAll\<close> returns with explorers
  only. In general \<open>spawnAll\<close> returns exactly when each of its five loops has an end (its
  bound is neither \<open>Infinity\<close> nor above \<open>2 ^ 53\<close>) and no array grows beyond \<open>2 ^ 32 - 1\<close>
  elements. When it returns, the state has tick 0 and score 0, \<open>running\<close> is as it was,
  the agents are the greedy, then the cautious, then the explorer ones, as many of each
  as its loop has turns (there may be none at all), the foods and hazards have the values
  10, 6, 2 in turn, and once \<open>running\<close> is set the next turn of \<open>loop\<close> is tick 1.
  (\<open>script.js\<close> has no bandwidth and no hyperparameter among its inputs.)
\<close>

theorem spawnAll_coerces_inputs:
  "agentN I = (case agentCount I of
       Fin r \<Rightarrow> if r = 0 then Fin 5 else Fin (max 1 (of_int \<lfloor>r\<rfloor>))
     | NaN \<Rightarrow> Fin 5 | PInf \<Rightarrow> PInf | NInf \<Rightarrow> Fin 1)
   \<and> foodN I = (case foodCount I of
       Fin r \<Rightarrow> if r = 0 then Fin 9 else Fin (max 0 (of_int \<lfloor>r\<rfloor>))
     | NaN \<Rightarrow> Fin 9 | PInf \<Rightarrow> PInf | NInf \<Rightarrow> Fin 0)
   \<and> dangerN I = (case dangerCount I of
       Fin r \<Rightarrow> if r = 0 then Fin 5 else Fin (max 0 (of_int \<lfloor>r\<rfloor>))
     | NaN \<Rightarrow> Fin 5 | PInf \<Rightarrow> PInf | NInf \<Rightarrow> Fin 0)
   \<and> ((pGreedy I = NaN \<or> pGreedy I = Fin 0) \<and> (pCautious I = NaN \<or> pCautious I = Fin 0)
        \<and> (pExplorer I = NaN \<or> pExplorer I = Fin 0) \<longrightarrow>
      mixTotal I = Fin 100
      \<and> (\<forall>k f d. agentN I = Fin (of_int k) \<and> foodN I = Fin (of_int f) \<and> dangerN I = Fin (of_int d)
            \<and> k \<le> int max_length \<and> f \<le> int max_length \<and> d \<le> int max_length \<longrightarrow>
          spawnAll E I s = Some (spawned E 0 0 (nat k) (nat f) (nat d) s)))
   \<and> ((\<exists>s'. spawnAll E I s = Some s') \<longleftrightarrow>
        (\<exists>g c e f d. iters (greedyN I) = Some g \<and> iters (cautiousN I) = Some c
           \<and> iters (explorerN I) = Some e \<and> iters (foodN I) = Some f \<and> iters (dangerN I) = Some d
           \<and> g + c + e \<le> max_length \<and> f \<le> max_length \<and> d \<le> max_length))
   \<and> (\<forall>n. iters n = None \<longleftrightarrow> n = PInf \<or> (\<exists>r. n = Fin r \<and> 2 ^ 53 < r))
   \<and> (\<forall>s'. spawnAll E I s = Some s' \<longrightarrow>
        tick s' = 0 \<and> score s' = 0 \<and> running s' = running s
        \<and> (\<exists>g c e f d. iters (greedyN I) = Some g \<and> iters (cautiousN I) = Some c
             \<and> iters (explorerN I) = Some e \<and> iters (foodN I) = Some f
             \<and> iters (dangerN I) = Some d
             \<and> map a_type (agents s') =
                 replicate g greedy @ replicate c cautious @ replicate e explorer
             \<and> map f_value (foods s') = map tier [0..<f]
             \<and> map d_severity (dangers s') = map tier [0..<d])
        \<and> tick (loop E (s'\<lparr>running := True\<rparr>)) = 1)"
proof (intro conjI allI impI)
  show "mixTotal I = Fin 100"
    if "(pGreedy I = NaN \<or> pGreedy I = Fin 0) \<and> (pCautious I = NaN \<or> pCautious I = Fin 0)
        \<and> (pExplorer I = NaN \<or> pExplorer I = Fin 0)"
    using that off_mix by blast
  show "spawnAll E I s = Some (spawned E 0 0 (nat k) (nat f) (nat d) s)"
    if off: "(pGreedy I = NaN \<or> pGreedy I = Fin 0) \<and> (pCautious I = NaN \<or> pCautious I = Fin 0)
        \<and> (pExplorer I = NaN \<or> pExplorer I = Fin 0)"
      and n: "agentN I = Fin (of_int k) \<and> foodN I = Fin (of_int f) \<and> dangerN I = Fin (of_int d)
            \<and> k \<le> int max_length \<and> f \<le> int max_length \<and> d \<le> int max_length"
    for k f d
  proof -
    from n have k53: "k < 2 ^ 53" by (simp add: max_length_def)
    from off n off_counts [OF _ _ _ _ k53]
    have gce: "greedyN I = Fin 0" "cautiousN I = Fin 0" "explorerN I = Fin (of_int k)"
      by blast+
    have le: "(of_int k :: real) \<le> 2 ^ 53" "(of_int f :: real) \<le> 2 ^ 53"
      "(of_int d :: real) \<le> 2 ^ 53"
    proof -
      have "k \<le> 2 ^ 53" "f \<le> 2 ^ 53" "d \<le> 2 ^ 53" using n by (simp_all add: max_length_def)
      then show "(of_int k :: real) \<le> 2 ^ 53" "(of_int f :: real) \<le> 2 ^ 53"
        "(of_int d :: real) \<le> 2 ^ 53"
        by (metis of_int_le_iff of_int_numeral of_int_power)+
    qed
    have "nat k \<le> max_length" "nat f \<le> max_length" "nat d \<le> max_length"
      using n by (simp_all add: nat_le_iff)
    then show ?thesis
      using n le by (simp add: spawnAll_def gce)
  qed
  show "tick s' = 0" "score s' = 0" "running s' = running s"
    "tick (loop E (s'\<lparr>running := True\<rparr>)) = 1" if "spawnAll E I s = Some s'" for s'
    using that by (auto elim!: spawnAll_Some simp: spawned_values loop_tick)
  show "\<exists>g c e f d. iters (greedyN I) = Some g \<and> iters (cautiousN I) = Some c
             \<and> iters (explorerN I) = Some e \<and> iters (foodN I) = Some f
             \<and> iters (dangerN I) = Some d
             \<and> map a_type (agents s') =
                 replicate g greedy @ replicate c cautious @ replicate e explorer
             \<and> map f_value (foods s') = map tier [0..<f]
             \<and> map d_severity (dangers s') = map tier [0..<d]"
    if "spawnAll E I s = Some s'" for s'
    using that by (elim spawnAll_Some) (simp add: spawned_types spawned_values)
qed (rule agentN_cases foodN_cases dangerN_cases spawnAll_returns iters_None)+

text \<open>
  Examples. A proportion of \<open>Infinity\<close> leaves no agent at all: the greedy share is
  \<open>Infinity / Infinity\<close>.
\<close>

lemma infinite_share_spawns_no_agent:
  "greedyN (demo_inputs\<lparr>pGreedy := PInf\<rparr>) = NaN
   \<and> cautiousN (demo_inputs\<lparr>pGreedy := PInf\<rparr>) = Fin 0
   \<and> explorerN (demo_inputs\<lparr>pGreedy := PInf\<rparr>) = NaN
   \<and> spawnAll demo_env (demo_inputs\<lparr>pGreedy := PInf\<rparr>) demo_sim =
       Some \<lparr> agents = [], foods = [demo_food 400 180 10], dangers = [demo_danger 400 180 10],
              running = True, tick = 0, score = 0, draws = 10 \<rparr>"
proof -
  let ?I = "demo_inputs\<lparr>pGreedy := PInf\<rparr>"
  have n: "greedyN ?I = NaN" "cautiousN ?I = Fin 0" "explorerN ?I = NaN" "foodN ?I = Fin 1"
    "dangerN ?I = Fin 1"
    by (simp_all add: greedyN_def cautiousN_def explorerN_def foodN_def dangerN_def agentN_def
        mixTotal_def or_default_def num_sub_def demo_inputs_def Let_def)
  have "spawnAll demo_env ?I demo_sim =
       Some \<lparr> agents = [], foods = [demo_food 400 180 10], dangers = [demo_danger 400 180 10],
              running = True, tick = 0, score = 0, draws = 10 \<rparr>"
    by (simp add: spawnAll_def n max_length_def spawned_def pushAgents_def pushFoods_def
        pushDangers_def newFood_def newDanger_def rand_def Math_random_def tier_def demo_env_def
        demo_sim_def demo_food_def demo_danger_def Let_def)
  with n show ?thesis by blast
qed

text \<open>
  Claim C9 as stated fails: with -3 agents, -2 foods and -1 hazards asked for and no
  proportion given, \<open>spawnAll\<close> returns a state with one explorer and no items, and the next
  turn of \<open>loop\<close> runs tick 1.
\<close>

theorem invalid_inputs_not_rejected:
  "spawnAll demo_env bad_inputs demo_sim =
     Some \<lparr> agents = [\<lparr> a_x = 400, a_y = 180, a_vx = 0, a_vy = 0, a_type = explorer,
                         a_wobble = 5, a_score = 0 \<rparr>],
            foods = [], dangers = [], running = True, tick = 0, score = 0, draws = 5 \<rparr>
   \<and> tick (loop demo_env
        \<lparr> agents = [\<lparr> a_x = 400, a_y = 180, a_vx = 0, a_vy = 0, a_type = explorer,
                      a_wobble = 5, a_score = 0 \<rparr>],
          foods = [], dangers = [], running = True, tick = 0, score = 0, draws = 5 \<rparr>) = 1"
proof -
  have n: "iters (greedyN bad_inputs) = Some 0" "iters (cautiousN bad_inputs) = Some 0"
    "iters (explorerN bad_inputs) = Some 1" "iters (foodN bad_inputs) = Some 0"
    "iters (dangerN bad_inputs) = Some 0"
    by (simp_all add: greedyN_def cautiousN_def explorerN_def foodN_def dangerN_def agentN_def
        mixTotal_def or_default_def num_sub_def bad_inputs_def Let_def)
  have "spawnAll demo_env bad_inputs demo_sim =
     Some \<lparr> agents = [\<lparr> a_x = 400, a_y = 180, a_vx = 0, a_vy = 0, a_type = explorer,
                         a_wobble = 5, a_score = 0 \<rparr>],
            foods = [], dangers = [], running = True, tick = 0, score = 0, draws = 5 \<rparr>"
    by (simp add: spawnAll_def n max_length_def spawned_def pushAgents_def pushFoods_def
        pushDangers_def newAgent_def rand_def Math_random_def demo_env_def demo_sim_def Let_def)
  then show ?thesis by (simp add: loop_tick)
qed

text \<open>
  The same inputs, and an agent count of \<open>Infinity\<close> or of \<open>2 ^ 60\<close>, with which \<open>spawnAll\<close>
  does not return.
\<close>

theorem spawnAll_coerces_inputs_witness:
  "agentN bad_inputs = Fin 1 \<and> foodN bad_inputs = Fin 0 \<and> dangerN bad_inputs = Fin 0
   \<and> mixTotal bad_inputs = Fin 100
   \<and> spawnAll demo_env bad_inputs demo_sim = Some (spawned demo_env 0 0 1 0 0 demo_sim)
   \<and> map a_type (agents (spawned demo_env 0 0 1 0 0 demo_sim)) = [explorer]
   \<and> tick (loop demo_env ((spawned demo_env 0 0 1 0 0 demo_sim)\<lparr>running := True\<rparr>)) = 1
   \<and> greedyN (demo_inputs\<lparr>agentCount := PInf\<rparr>) = PInf
   \<and> spawnAll demo_env (demo_inputs\<lparr>agentCount := PInf\<rparr>) demo_sim = None
   \<and> spawnAll demo_env (demo_inputs\<lparr>agentCount := Fin (2 ^ 60)\<rparr>) demo_sim = None"
proof -
  note A = spawnAll_coerces_inputs [of bad_inputs demo_env demo_sim]
  have a: "agentN bad_inputs = Fin 1"
    using A [THEN conjunct1] by (simp add: bad_inputs_def)
  have f: "foodN bad_inputs = Fin 0"
    using A [THEN conjunct2, THEN conjunct1] by (simp add: bad_inputs_def)
  have d: "dangerN bad_inputs = Fin 0"
    using A [THEN conjunct2, THEN conjunct2, THEN conjunct1] by (simp add: bad_inputs_def)
  have off: "(pGreedy bad_inputs = NaN \<or> pGreedy bad_inputs = Fin 0)
      \<and> (pCautious bad_inputs = NaN \<or> pCautious bad_inputs = Fin 0)
      \<and> (pExplorer bad_inputs = NaN \<or> pExplorer bad_inputs = Fin 0)"
    by (simp add: bad_inputs_def)
  note B = A [THEN conjunct2, THEN conjunct2, THEN conjunct2, THEN conjunct1, rule_format, OF off]
  have m: "mixTotal bad_inputs = Fin 100" by (rule B [THEN conjunct1])
  have "agentN bad_inputs = Fin (of_int 1) \<and> foodN bad_inputs = Fin (of_int 0)
      \<and> dangerN bad_inputs = Fin (of_int 0)
      \<and> 1 \<le> int max_length \<and> 0 \<le> int max_length \<and> 0 \<le> int max_length"
    using a f d by (simp add: max_length_def)
  from B [THEN conjunct2, rule_format, OF this]
  have sp: "spawnAll demo_env bad_inputs demo_sim = Some (spawned demo_env 0 0 1 0 0 demo_sim)"
    by simp
  note S = A [THEN conjunct2, THEN conjunct2, THEN conjunct2, THEN conjunct2, THEN conjunct2,
      THEN conjunct2, rule_format, OF sp]
  from S obtain g c e where
    gce: "iters (greedyN bad_inputs) = Some g" "iters (cautiousN bad_inputs) = Some c"
    "iters (explorerN bad_inputs) = Some e"
    and ty: "map a_type (agents (spawned demo_env 0 0 1 0 0 demo_sim)) =
       replicate g greedy @ replicate c cautious @ replicate e explorer"
    by blast
  note gce
  moreover have "iters (greedyN bad_inputs) = Some 0" "iters (cautiousN bad_inputs) = Some 0"
    "iters (explorerN bad_inputs) = Some 1"
    by (simp_all add: greedyN_def cautiousN_def explorerN_def agentN_def
        mixTotal_def or_default_def num_sub_def bad_inputs_def Let_def)
  ultimately have "g = 0" "c = 0" "e = 1" by simp_all
  with ty have types: "map a_type (agents (spawned demo_env 0 0 1 0 0 demo_sim)) = [explorer]"
    by simp
  have tk: "tick (loop demo_env ((spawned demo_env 0 0 1 0 0 demo_sim)\<lparr>running := True\<rparr>)) = 1"
    using S by blast
  let ?J = "demo_inputs\<lparr>agentCount := PInf\<rparr>"
  have gJ: "greedyN ?J = PInf"
    by (simp add: greedyN_def agentN_def mixTotal_def or_default_def demo_inputs_def Let_def)
  note R = spawnAll_coerces_inputs [of ?J demo_env demo_sim, THEN conjunct2, THEN conjunct2,
      THEN conjunct2, THEN conjunct2, THEN conjunct1]
  have "\<not> (\<exists>s'. spawnAll demo_env ?J demo_sim = Some s')"
    unfolding R by (simp add: gJ)
  then have nJ: "spawnAll demo_env ?J demo_sim = None" by simp
  let ?K = "demo_inputs\<lparr>agentCount := Fin (2 ^ 60)\<rparr>"
  have fl: "\<lfloor>(2::real) ^ 60\<rfloor> = 2 ^ 60" by (simp add: floor_eq_iff)
  have t60: "to_double (2 ^ 60) = Fin (2 ^ 60)"
    using to_double_eval [of 60 "2 ^ 60"] ties_to_even_int [of "2 ^ 52"]
    by (simp add: pow2_def Let_def)
  have gK: "greedyN ?K = Fin (2 ^ 60)"
    using fl t60
    by (simp add: greedyN_def agentN_def mixTotal_def or_default_def demo_inputs_def Let_def)
  note Q = spawnAll_coerces_inputs [of ?K demo_env demo_sim, THEN conjunct2, THEN conjunct2,
      THEN conjunct2, THEN conjunct2, THEN conjunct1]
  have iK: "iters (greedyN ?K) = None" unfolding gK by simp
  have "\<not> (\<exists>s'. spawnAll demo_env ?K demo_sim = Some s')"
    unfolding Q using iK by simp
  then have nK: "spawnAll demo_env ?K demo_sim = None" by simp
  from a f d m sp types tk gJ nJ nK show ?thesis by blast
qed

subsection \<open>What a run depends on\<close>

text \<open>
  Two environments that return the same first \<open>n\<close> draws and have the same canvas give
  the same result wherever no draw from the \<open>n\<close>-th on is read: first the spawning loops.
\<close>

lemma same_draws_mono: "same_draws n E1 E2 \<Longrightarrow> m \<le> n \<Longrightarrow> same_draws m E1 E2"
  by (simp add: same_draws_def)

lemma same_random: "same_draws n E1 E2 \<Longrightarrow> k < n \<Longrightarrow> Math_random E1 k = Math_random E2 k"
  by (simp add: same_draws_def)

lemma same_rand: "same_draws n E1 E2 \<Longrightarrow> k < n \<Longrightarrow> rand E1 k lo hi = rand E2 k lo hi"
  by (simp add: rand_def same_random)

lemma same_newAgent:
  assumes "same_draws n E1 E2" and "width E1 = width E2" and "height E1 = height E2"
    and "k + 5 \<le> n"
  shows "newAgent E1 k ty = newAgent E2 k ty"
  using assms(2-4)
  by (simp add: newAgent_def same_rand [OF assms(1)] same_random [OF assms(1)])

lemma same_newFood:
  assumes "same_draws n E1 E2" and "width E1 = width E2" and "height E1 = height E2"
    and "k + 5 \<le> n"
  shows "newFood E1 k i = newFood E2 k i"
  using assms(2-4)
  by (simp add: newFood_def same_rand [OF assms(1)] same_random [OF assms(1)])

lemma same_newDanger:
  assumes "same_draws n E1 E2" and "width E1 = width E2" and "height E1 = height E2"
    and "k + 5 \<le> n"
  shows "newDanger E1 k i = newDanger E2 k i"
  using assms(2-4)
  by (simp add: newDanger_def same_rand [OF assms(1)] same_random [OF assms(1)])

lemma same_pushAgents:
  assumes "same_draws n E1 E2" and "width E1 = width E2" and "height E1 = height E2"
  shows "snd st + 5 * m \<le> n \<Longrightarrow> pushAgents E1 ty m st = pushAgents E2 ty m st"
proof (induction m)
  case 0
  then show ?case by (simp add: pushAgents_0)
next
  case (Suc m)
  then have IH: "pushAgents E1 ty m st = pushAgents E2 ty m st" by simp
  have k: "snd (pushAgents E2 ty m st) = snd st + 5 * m"
    by (simp add: pushAgents_shape)
  have "newAgent E1 (snd (pushAgents E2 ty m st)) ty = newAgent E2 (snd (pushAgents E2 ty m st)) ty"
    using Suc.prems unfolding k by (intro same_newAgent [OF assms]) simp
  then show ?case by (simp add: pushAgents_Suc IH split_beta)
qed

lemma same_pushFoods:
  assumes "same_draws n E1 E2" and "width E1 = width E2" and "height E1 = height E2"
  shows "snd st + 5 * m \<le> n \<Longrightarrow> pushFoods E1 m st = pushFoods E2 m st"
proof (induction m)
  case 0
  then show ?case by (simp add: pushFoods_0)
next
  case (Suc m)
  then have IH: "pushFoods E1 m st = pushFoods E2 m st" by simp
  have k: "snd (pushFoods E2 m st) = snd st + 5 * m"
    by (simp add: pushFoods_shape)
  have "newFood E1 (snd (pushFoods E2 m st)) m = newFood E2 (snd (pushFoods E2 m st)) m"
    using Suc.prems unfolding k by (intro same_newFood [OF assms]) simp
  then show ?case by (simp add: pushFoods_Suc IH split_beta)
qed

lemma same_pushDangers:
  assumes "same_draws n E1 E2" and "width E1 = width E2" and "height E1 = height E2"
  shows "snd st + 5 * m \<le> n \<Longrightarrow> pushDangers E1 m st = pushDangers E2 m st"
proof (induction m)
  case 0
  then show ?case by (simp add: pushDangers_0)
next
  case (Suc m)
  then have IH: "pushDangers E1 m st = pushDangers E2 m st" by simp
  have k: "snd (pushDangers E2 m st) = snd st + 5 * m"
    by (simp add: pushDangers_shape)
  have "newDanger E1 (snd (pushDangers E2 m st)) m = newDanger E2 (snd (pushDangers E2 m st)) m"
    using Suc.prems unfolding k by (intro same_newDanger [OF assms]) simp
  then show ?case by (simp add: pushDangers_Suc IH split_beta)
qed

lemma same_spawned:
  assumes "same_draws n E1 E2" and "width E1 = width E2" and "height E1 = height E2"
    and "draws s + 5 * (g + c + e + f + d) \<le> n"
  shows "spawned E1 g c e f d s = spawned E2 g c e f d s"
proof -
  let ?A1 = "pushAgents E2 greedy g ([], draws s)"
  let ?A2 = "pushAgents E2 cautious c ?A1"
  let ?A3 = "pushAgents E2 explorer e ?A2"
  let ?F = "pushFoods E2 f ([], snd ?A3)"
  have a1: "pushAgents E1 greedy g ([], draws s) = ?A1"
    using assms(4) by (intro same_pushAgents [OF assms(1-3)]) simp
  have a2: "pushAgents E1 cautious c ?A1 = ?A2"
    using assms(4) by (intro same_pushAgents [OF assms(1-3)]) (simp add: pushAgents_shape)
  have a3: "pushAgents E1 explorer e ?A2 = ?A3"
    using assms(4) by (intro same_pushAgents [OF assms(1-3)]) (simp add: pushAgents_shape)
  have fo: "pushFoods E1 f ([], snd ?A3) = ?F"
    using assms(4) by (intro same_pushFoods [OF assms(1-3)]) (simp add: pushAgents_shape)
  have da: "pushDangers E1 d ([], snd ?F) = pushDangers E2 d ([], snd ?F)"
    using assms(4)
    by (intro same_pushDangers [OF assms(1-3)]) (simp add: pushAgents_shape pushFoods_shape)
  show ?thesis
    by (simp add: spawned_def Let_def split_beta a1 a2 a3 fo da)
qed

lemma same_spawnAll:
  assumes "spawnAll E1 I s = Some t" and "same_draws (draws t) E1 E2"
    and "width E1 = width E2" and "height E1 = height E2"
  shows "spawnAll E2 I s = Some t"
proof -
  from assms(1) obtain g c e f d where
    n: "iters (greedyN I) = Some g" "iters (cautiousN I) = Some c" "iters (explorerN I) = Some e"
      "iters (foodN I) = Some f" "iters (dangerN I) = Some d"
      "g + c + e \<le> max_length" "f \<le> max_length" "d \<le> max_length"
    and t: "t = spawned E1 g c e f d s"
    by (rule spawnAll_Some)
  have "draws t = draws s + 5 * (g + c + e + f + d)"
    unfolding t by (simp add: spawned_values)
  then have "draws s + 5 * (g + c + e + f + d) \<le> draws t" by simp
  with assms(2-4) have "spawned E1 g c e f d s = spawned E2 g c e f d s"
    by (rule same_spawned)
  then show ?thesis using n t by (simp add: spawnAll_def)
qed

text \<open>
  The draws of a tick: each function leaves the position in the sequence of draws where
  it was or further on, and reads no draw at or after the position it leaves.
\<close>

lemma steer_draws: "k \<le> snd (steer E k a fs ds)"
  by (simp add: steer_def steerCautious_def attract_def steerExplorer_def Let_def
      split: agent_type.splits)

lemma same_steer:
  assumes "same_draws n E1 E2" and "snd (steer E1 k a fs ds) \<le> n"
  shows "steer E1 k a fs ds = steer E2 k a fs ds"
proof (cases "a_type a")
  case greedy
  then show ?thesis by (simp add: steer_def)
next
  case cautious
  show ?thesis
  proof (cases "fs = []")
    case True
    with cautious show ?thesis by (simp add: steer_def steerCautious_def attract_def)
  next
    case False
    with cautious assms(2) have "k < n"
      by (simp add: steer_def steerCautious_def attract_def Let_def)
    then have "Math_random E1 k = Math_random E2 k" by (rule same_random [OF assms(1)])
    with cautious show ?thesis by (simp add: steer_def steerCautious_def attract_def)
  qed
next
  case explorer
  with assms(2) have "k < n" "k + 1 < n" by (simp_all add: steer_def steerExplorer_def)
  then have "rand E1 k (- 0.02) 0.02 = rand E2 k (- 0.02) 0.02"
    and "rand E1 (k + 1) (- 0.02) 0.02 = rand E2 (k + 1) (- 0.02) 0.02"
    by (simp_all add: same_rand [OF assms(1)])
  with explorer show ?thesis by (simp add: steer_def steerExplorer_def)
qed

lemma same_dampMove:
  "width E1 = width E2 \<Longrightarrow> height E1 = height E2 \<Longrightarrow> dampMove E1 a = dampMove E2 a"
  by (simp add: dampMove_def)

lemma same_moveFood:
  "width E1 = width E2 \<Longrightarrow> height E1 = height E2 \<Longrightarrow> moveFood E1 = moveFood E2"
  by (rule ext) (simp add: moveFood_def)

lemma same_moveDanger:
  "width E1 = width E2 \<Longrightarrow> height E1 = height E2 \<Longrightarrow> moveDanger E1 = moveDanger E2"
  by (rule ext) (simp add: moveDanger_def)

lemma dangerLoop_draws: "snd (snd (snd st)) \<le> snd (snd (snd (dangerLoop E i st)))"
proof (induction i arbitrary: st)
  case 0
  then show ?case by simp
next
  case (Suc i)
  obtain a ds sc k where st: "st = (a, ds, sc, k)" by (cases st) auto
  show ?case
  proof (cases "contactD a (ds ! i)")
    case True
    let ?st1 = "(a\<lparr> a_score := a_score a - d_severity (ds ! i) \<rparr>,
                 (if Math_random E k < 0.06 then take i ds @ drop (Suc i) ds else ds),
                 sc - d_severity (ds ! i), k + 1)"
    have "dangerLoop E (Suc i) st = dangerLoop E i ?st1" using True by (simp add: st)
    moreover have "snd (snd (snd ?st1)) \<le> snd (snd (snd (dangerLoop E i ?st1)))" by (rule Suc.IH)
    ultimately show ?thesis by (simp add: st)
  next
    case False
    then have "dangerLoop E (Suc i) st = dangerLoop E i st" by (simp add: st)
    with Suc.IH [of st] show ?thesis by simp
  qed
qed

lemma same_dangerLoop:
  assumes "same_draws n E1 E2"
  shows "snd (snd (snd (dangerLoop E1 i st))) \<le> n \<Longrightarrow> dangerLoop E1 i st = dangerLoop E2 i st"
proof (induction i arbitrary: st)
  case 0
  then show ?case by simp
next
  case (Suc i)
  obtain a ds sc k where st: "st = (a, ds, sc, k)" by (cases st) auto
  show ?case
  proof (cases "contactD a (ds ! i)")
    case True
    let ?st1 = "\<lambda>E. (a\<lparr> a_score := a_score a - d_severity (ds ! i) \<rparr>,
                 (if Math_random E k < 0.06 then take i ds @ drop (Suc i) ds else ds),
                 sc - d_severity (ds ! i), k + 1)"
    have s1: "dangerLoop E1 (Suc i) st = dangerLoop E1 i (?st1 E1)"
      and s2: "dangerLoop E2 (Suc i) st = dangerLoop E2 i (?st1 E2)"
      using True by (simp_all add: st)
    have le: "snd (snd (snd (dangerLoop E1 i (?st1 E1)))) \<le> n"
      using Suc.prems unfolding s1 .
    have "snd (snd (snd (?st1 E1))) \<le> snd (snd (snd (dangerLoop E1 i (?st1 E1))))"
      by (rule dangerLoop_draws)
    with le have "k < n" by simp
    then have "Math_random E1 k = Math_random E2 k" by (rule same_random [OF assms])
    then have eq: "?st1 E1 = ?st1 E2" by simp
    have "dangerLoop E1 i (?st1 E1) = dangerLoop E2 i (?st1 E1)"
      using le by (rule Suc.IH)
    then show ?thesis unfolding s1 s2 eq .
  next
    case False
    then have s1: "dangerLoop E1 (Suc i) st = dangerLoop E1 i st"
      and s2: "dangerLoop E2 (Suc i) st = dangerLoop E2 i st"
      by (simp_all add: st)
    from Suc.prems have "snd (snd (snd (dangerLoop E1 i st))) \<le> n" unfolding s1 .
    then show ?thesis unfolding s1 s2 by (rule Suc.IH)
  qed
qed

lemma agentStep_unfold:
  "agentStep E a (fs, ds, sc, k) =
     (let st = steer E k a fs ds;
          fl = foodLoop (length fs) (dampMove E (fst st), fs, sc);
          dl = dangerLoop E (length ds) (fst fl, ds, snd (snd fl), snd st)
      in (fst dl, fst (snd fl), fst (snd dl), fst (snd (snd dl)), snd (snd (snd dl))))"
  by (simp add: agentStep_def split_beta Let_def del: foodLoop.simps dangerLoop.simps)

lemma agentStep_draws: "snd (snd (snd w)) \<le> snd (snd (snd (snd (agentStep E a w))))"
proof -
  obtain fs ds sc k where w: "w = (fs, ds, sc, k)" by (cases w) auto
  let ?st = "steer E k a fs ds"
  let ?fl = "foodLoop (length fs) (dampMove E (fst ?st), fs, sc)"
  let ?d0 = "(fst ?fl, ds, snd (snd ?fl), snd ?st)"
  have "k \<le> snd ?st" by (rule steer_draws)
  also have "snd ?st = snd (snd (snd ?d0))" by simp
  also have "\<dots> \<le> snd (snd (snd (dangerLoop E (length ds) ?d0)))" by (rule dangerLoop_draws)
  finally show ?thesis unfolding w agentStep_unfold by (simp add: Let_def del: dangerLoop.simps foodLoop.simps)
qed

lemma same_agentStep:
  assumes "same_draws n E1 E2" and "width E1 = width E2" and "height E1 = height E2"
    and "snd (snd (snd (snd (agentStep E1 a w)))) \<le> n"
  shows "agentStep E1 a w = agentStep E2 a w"
proof -
  obtain fs ds sc k where w: "w = (fs, ds, sc, k)" by (cases w) auto
  let ?st = "\<lambda>E. steer E k a fs ds"
  let ?fl = "\<lambda>E. foodLoop (length fs) (dampMove E (fst (?st E)), fs, sc)"
  let ?d0 = "\<lambda>E. (fst (?fl E), ds, snd (snd (?fl E)), snd (?st E))"
  have le: "snd (snd (snd (dangerLoop E1 (length ds) (?d0 E1)))) \<le> n"
    using assms(4) unfolding w agentStep_unfold
    by (simp add: Let_def del: dangerLoop.simps foodLoop.simps)
  have "snd (snd (snd (?d0 E1))) \<le> snd (snd (snd (dangerLoop E1 (length ds) (?d0 E1))))"
    by (rule dangerLoop_draws)
  with le have "snd (?st E1) \<le> n" by simp
  then have st: "?st E1 = ?st E2" by (rule same_steer [OF assms(1)])
  have dm: "dampMove E1 (fst (?st E2)) = dampMove E2 (fst (?st E2))"
    by (rule same_dampMove [OF assms(2,3)])
  have d0: "?d0 E1 = ?d0 E2" unfolding st dm ..
  have "dangerLoop E1 (length ds) (?d0 E1) = dangerLoop E2 (length ds) (?d0 E1)"
    using le by (rule same_dangerLoop [OF assms(1)])
  then have dl: "dangerLoop E1 (length ds) (?d0 E1) = dangerLoop E2 (length ds) (?d0 E2)"
    unfolding d0 .
  show ?thesis
    unfolding w agentStep_unfold Let_def dl unfolding st dm ..
qed

lemma agentsLoop_draws: "snd (snd (snd w)) \<le> snd (snd (snd (snd (agentsLoop E as w))))"
proof (induction as arbitrary: w)
  case Nil
  then show ?case by simp
next
  case (Cons a as)
  have "snd (snd (snd w)) \<le> snd (snd (snd (snd (agentStep E a w))))" by (rule agentStep_draws)
  also have "\<dots> \<le> snd (snd (snd (snd (agentsLoop E as (snd (agentStep E a w))))))"
    by (rule Cons.IH)
  finally show ?case by (simp add: split_beta)
qed

lemma same_agentsLoop:
  assumes "same_draws n E1 E2" and "width E1 = width E2" and "height E1 = height E2"
  shows "snd (snd (snd (snd (agentsLoop E1 as w)))) \<le> n
     \<Longrightarrow> agentsLoop E1 as w = agentsLoop E2 as w"
proof (induction as arbitrary: w)
  case Nil
  then show ?case by simp
next
  case (Cons a as)
  let ?w1 = "snd (agentStep E1 a w)"
  have le: "snd (snd (snd (snd (agentsLoop E1 as ?w1)))) \<le> n"
    using Cons.prems by (simp add: split_beta)
  have "snd (snd (snd ?w1)) \<le> snd (snd (snd (snd (agentsLoop E1 as ?w1))))"
    by (rule agentsLoop_draws)
  with le have "snd (snd (snd (snd (agentStep E1 a w)))) \<le> n" by simp
  then have st: "agentStep E1 a w = agentStep E2 a w" by (rule same_agentStep [OF assms])
  have "agentsLoop E1 as ?w1 = agentsLoop E2 as ?w1" using le by (rule Cons.IH)
  then show ?case by (simp add: split_beta st)
qed

lemma stepOnce_draws_eq:
  "draws (stepOnce E s) =
     snd (snd (snd (snd (agentsLoop E (agents s)
        (map (moveFood E) (foods s), map (moveDanger E) (dangers s), score s, draws s)))))"
  by (simp add: stepOnce_def Let_def split_beta)

lemma stepOnce_draws: "draws s \<le> draws (stepOnce E s)"
  unfolding stepOnce_draws_eq
  using agentsLoop_draws [of "(map (moveFood E) (foods s), map (moveDanger E) (dangers s),
      score s, draws s)" E "agents s"]
  by simp

lemma same_stepOnce:
  assumes "same_draws n E1 E2" and "width E1 = width E2" and "height E1 = height E2"
    and "draws (stepOnce E1 s) \<le> n"
  shows "stepOnce E1 s = stepOnce E2 s"
proof -
  have mv: "moveFood E1 = moveFood E2" "moveDanger E1 = moveDanger E2"
    using assms(2,3) by (rule same_moveFood, rule same_moveDanger)
  have "agentsLoop E1 (agents s)
        (map (moveFood E1) (foods s), map (moveDanger E1) (dangers s), score s, draws s)
      = agentsLoop E2 (agents s)
        (map (moveFood E1) (foods s), map (moveDanger E1) (dangers s), score s, draws s)"
    using assms(4) unfolding stepOnce_draws_eq by (rule same_agentsLoop [OF assms(1-3)])
  then show ?thesis by (simp add: stepOnce_def mv)
qed

lemma loop_draws: "draws s \<le> draws (loop E s)"
  by (simp add: loop_def stepOnce_draws)

lemma same_loop:
  assumes "same_draws n E1 E2" and "width E1 = width E2" and "height E1 = height E2"
    and "draws (loop E1 s) \<le> n"
  shows "loop E1 s = loop E2 s"
proof (cases "running s \<and> length (agents s) \<le> 500")
  case True
  with assms(4) have "draws (stepOnce E1 s) \<le> n" by (simp add: loop_def)
  then have "stepOnce E1 s = stepOnce E2 s" by (rule same_stepOnce [OF assms(1-3)])
  with True show ?thesis by (simp add: loop_def)
next
  case False
  then show ?thesis by (auto simp: loop_def)
qed

lemma turns_Cons: "turns E (wh # sizes) s = turns E sizes (loop (resized E wh) s)"
  by (simp add: turns_def)

lemma turns_append: "turns E (xs @ ys) s = turns E ys (turns E xs s)"
  by (simp add: turns_def)

lemma turns_draws: "draws s \<le> draws (turns E sizes s)"
proof (induction sizes arbitrary: s)
  case Nil
  then show ?case by (simp add: turns_def)
next
  case (Cons wh sizes)
  have "draws s \<le> draws (loop (resized E wh) s)" by (rule loop_draws)
  also have "\<dots> \<le> draws (turns E sizes (loop (resized E wh) s))" by (rule Cons.IH)
  finally show ?case by (simp add: turns_Cons)
qed

lemma random_resized: "Math_random (resized E wh) = Math_random E"
  by (rule ext) (simp add: Math_random_def resized_def)

lemma same_resized: "same_draws n E1 E2 \<Longrightarrow> same_draws n (resized E1 wh) (resized E2 wh)"
  by (simp add: same_draws_def random_resized)

lemma same_turns:
  assumes "same_draws n E1 E2"
  shows "draws (turns E1 sizes s) \<le> n \<Longrightarrow> turns E1 sizes s = turns E2 sizes s"
proof (induction sizes arbitrary: s)
  case Nil
  then show ?case by (simp add: turns_def)
next
  case (Cons wh sizes)
  let ?s1 = "loop (resized E1 wh) s"
  have le: "draws (turns E1 sizes ?s1) \<le> n" using Cons.prems by (simp add: turns_Cons)
  have "draws ?s1 \<le> draws (turns E1 sizes ?s1)" by (rule turns_draws)
  with le have "draws ?s1 \<le> n" by simp
  then have l: "loop (resized E1 wh) s = loop (resized E2 wh) s"
    by (intro same_loop [OF same_resized [OF assms]]) (simp_all add: resized_def)
  have "turns E1 sizes ?s1 = turns E2 sizes ?s1" using le by (rule Cons.IH)
  then show ?case by (simp add: turns_Cons l)
qed

lemma same_run:
  assumes "run E1 I s sizes = Some s1" and "width E1 = width E2" and "height E1 = height E2"
    and "same_draws (draws s1) E1 E2" and "m \<le> length sizes"
  shows "run E2 I s (take m sizes) = run E1 I s (take m sizes)"
proof -
  from assms(1) obtain t where sp: "spawnAll E1 I s = Some t"
    and s1: "s1 = turns E1 sizes (t\<lparr> running := True \<rparr>)"
    by (auto simp: run_def)
  let ?t = "t\<lparr> running := True \<rparr>"
  have "turns E1 sizes ?t = turns E1 (drop m sizes) (turns E1 (take m sizes) ?t)"
    using turns_append [of E1 "take m sizes" "drop m sizes" ?t] by simp
  then have mid: "draws (turns E1 (take m sizes) ?t) \<le> draws s1"
    unfolding s1 using turns_draws [of "turns E1 (take m sizes) ?t" E1 "drop m sizes"] by simp
  have "draws ?t \<le> draws (turns E1 (take m sizes) ?t)" by (rule turns_draws)
  with mid have "draws t \<le> draws s1" by simp
  with assms(4) have "same_draws (draws t) E1 E2" by (rule same_draws_mono)
  with sp have sp2: "spawnAll E2 I s = Some t" using assms(2,3) by (rule same_spawnAll)
  have "turns E1 (take m sizes) ?t = turns E2 (take m sizes) ?t"
    using mid by (rule same_turns [OF assms(4)])
  then show ?thesis by (simp add: run_def sp sp2)
qed

text \<open>
  What the input fields alone decide.
\<close>

lemma spawnAll_None_iff: "spawnAll E1 I s = None \<longleftrightarrow> spawnAll E2 I s' = None"
  using spawnAll_returns [of E1 I s] spawnAll_returns [of E2 I s'] by auto

lemma loop_running: "running (loop E s) = running s"
  by (simp add: loop_def stepOnce_def Let_def split_beta)

lemma loop_types: "map a_type (agents (loop E s)) = map a_type (agents s)"
  by (simp add: loop_def stepOnce_agents agentsLoop_types)

lemma turns_shape:
  "running s \<Longrightarrow>
   running (turns E sizes s) \<and> tick (turns E sizes s) = tick s + length sizes
   \<and> map a_type (agents (turns E sizes s)) = map a_type (agents s)"
proof (induction sizes arbitrary: s)
  case Nil
  then show ?case by (simp add: turns_def)
next
  case (Cons wh sizes)
  let ?s1 = "loop (resized E wh) s"
  have r: "running ?s1" using Cons.prems by (simp add: loop_running)
  from Cons.IH [OF r] Cons.prems show ?case
    by (simp add: turns_Cons loop_tick loop_types)
qed

lemma run_shape:
  assumes "run E I s sizes = Some s1"
  shows "tick s1 = length sizes
       \<and> (\<exists>g c e. iters (greedyN I) = Some g \<and> iters (cautiousN I) = Some c
             \<and> iters (explorerN I) = Some e
             \<and> map a_type (agents s1) =
                 replicate g greedy @ replicate c cautious @ replicate e explorer)"
proof -
  from assms obtain t where sp: "spawnAll E I s = Some t"
    and s1: "s1 = turns E sizes (t\<lparr> running := True \<rparr>)"
    by (auto simp: run_def)
  from sp obtain g c e f d where
    n: "iters (greedyN I) = Some g" "iters (cautiousN I) = Some c" "iters (explorerN I) = Some e"
    and t: "t = spawned E g c e f d s"
    by (rule spawnAll_Some)
  have "running (t\<lparr> running := True \<rparr>)" by simp
  from turns_shape [OF this, of E sizes]
  have "tick s1 = length sizes"
    and "map a_type (agents s1) = replicate g greedy @ replicate c cautious @ replicate e explorer"
    unfolding s1 t by (simp_all add: spawned_types spawned_values)
  with n show ?thesis by blast
qed

text \<open>
  Claim C1, as the code has it. \<open>script.js\<close> has no seed: every random value comes from
  \<open>Math.random()\<close>. A run (\<open>spawnAll\<close>, the start button, and one turn of \<open>loop\<close> at each of
  the given sizes of the canvas) is determined by the input fields, the sizes of the
  canvas and the values \<open>Math.random()\<close> returns up to the last one the run reads: a second
  run that agrees with the first on these reaches the same state, and does so after every
  number of turns. The input fields alone decide whether \<open>spawnAll\<close> returns, the tick
  counter and the types of the agents after the turns, and the values of the foods, the
  severities of the hazards, the score 0 and the tick 0 at spawn.
\<close>

theorem run_determined_by_draws:
  "(run E1 I s sizes = Some s1 \<and> width E1 = width E2 \<and> height E1 = height E2
      \<and> same_draws (draws s1) E1 E2 \<longrightarrow>
     run E2 I s sizes = Some s1
     \<and> (\<forall>m \<le> length sizes. run E2 I s (take m sizes) = run E1 I s (take m sizes)))
   \<and> (run E1 I s sizes = None \<longleftrightarrow> run E2 I s sizes = None)
   \<and> (run E1 I s sizes = Some s1 \<and> run E2 I s sizes = Some s2 \<longrightarrow>
        tick s1 = length sizes \<and> tick s2 = length sizes
        \<and> map a_type (agents s1) = map a_type (agents s2))
   \<and> (spawnAll E1 I s = Some t1 \<and> spawnAll E2 I s = Some t2 \<longrightarrow>
        map f_value (foods t1) = map f_value (foods t2)
        \<and> map d_severity (dangers t1) = map d_severity (dangers t2)
        \<and> score t1 = 0 \<and> score t2 = 0 \<and> tick t1 = 0 \<and> tick t2 = 0)"
proof (intro conjI impI allI)
  assume h: "run E1 I s sizes = Some s1 \<and> width E1 = width E2 \<and> height E1 = height E2
      \<and> same_draws (draws s1) E1 E2"
  then have r: "run E1 I s sizes = Some s1" and w: "width E1 = width E2"
    and ht: "height E1 = height E2" and sd: "same_draws (draws s1) E1 E2"
    by blast+
  show "run E2 I s sizes = Some s1"
    using same_run [OF r w ht sd, of "length sizes"] r by simp
  show "run E2 I s (take m sizes) = run E1 I s (take m sizes)" if "m \<le> length sizes" for m
    using r w ht sd that by (rule same_run)
next
  show "run E1 I s sizes = None \<longleftrightarrow> run E2 I s sizes = None"
    using spawnAll_None_iff [of E1 I s E2 s] by (simp add: run_def)
next
  assume h: "run E1 I s sizes = Some s1 \<and> run E2 I s sizes = Some s2"
  from h run_shape [of E1 I s sizes s1] run_shape [of E2 I s sizes s2]
  show "tick s1 = length sizes" "tick s2 = length sizes"
    "map a_type (agents s1) = map a_type (agents s2)"
    by auto
next
  assume h: "spawnAll E1 I s = Some t1 \<and> spawnAll E2 I s = Some t2"
  then have a: "spawnAll E1 I s = Some t1" and b: "spawnAll E2 I s = Some t2" by blast+
  from a obtain g c e f d where
    n1: "iters (foodN I) = Some f" "iters (dangerN I) = Some d"
    and t1: "t1 = spawned E1 g c e f d s"
    by (rule spawnAll_Some)
  from b obtain g' c' e' f' d' where
    n2: "iters (foodN I) = Some f'" "iters (dangerN I) = Some d'"
    and t2: "t2 = spawned E2 g' c' e' f' d' s"
    by (rule spawnAll_Some)
  from n1 n2 have "f' = f" "d' = d" by simp_all
  then show "map f_value (foods t1) = map f_value (foods t2)"
    "map d_severity (dangers t1) = map d_severity (dangers t2)"
    "score t1 = 0" "score t2 = 0" "tick t1 = 0" "tick t2 = 0"
    unfolding t1 t2 by (simp_all add: spawned_values)
qed

text \<open>
  Example runs of the example inputs: on the canvas whose draws are all one half, and on
  the canvas whose draws are all zero.
\<close>

lemma spawnAll_demo:
  "spawnAll demo_env demo_inputs demo_sim =
     Some \<lparr> agents = [\<lparr> a_x = 400, a_y = 180, a_vx = 0, a_vy = 0, a_type = greedy, a_wobble = 5,
                         a_score = 0 \<rparr>],
            foods = [demo_food 400 180 10],
            dangers = [demo_danger 400 180 10],
            running = True, tick = 0, score = 0, draws = 15 \<rparr>"
  by (simp add: spawnAll_def spawnAll_demo_counts max_length_def spawned_def pushAgents_def
      pushFoods_def pushDangers_def newAgent_def newFood_def newDanger_def rand_def
      Math_random_def tier_def demo_env_def demo_sim_def demo_food_def demo_danger_def Let_def)

lemma spawnAll_zero:
  "spawnAll zero_env demo_inputs demo_sim =
     Some \<lparr> agents = [\<lparr> a_x = 40, a_y = 40, a_vx = - 0.8, a_vy = - 0.8, a_type = greedy,
                         a_wobble = 0, a_score = 0 \<rparr>],
            foods = [\<lparr> f_x = 40, f_y = 40, f_value = 10, f_mobile = True, f_vx = - 0.5,
                      f_vy = - 0.5 \<rparr>],
            dangers = [\<lparr> d_x = 40, d_y = 40, d_severity = 10, d_mobile = True, d_vx = - 0.6,
                        d_vy = - 0.6 \<rparr>],
            running = True, tick = 0, score = 0, draws = 15 \<rparr>"
  by (simp add: spawnAll_def spawnAll_demo_counts max_length_def spawned_def pushAgents_def
      pushFoods_def pushDangers_def newAgent_def newFood_def newDanger_def rand_def
      Math_random_def tier_def zero_env_def demo_sim_def Let_def)

lemma run_demo:
  "run demo_env demo_inputs demo_sim [(800, 360)] =
     Some \<lparr> agents = [\<lparr> a_x = 400, a_y = 180, a_vx = 0, a_vy = 0, a_type = greedy, a_wobble = 5,
                         a_score = 0 \<rparr>],
            foods = [],
            dangers = [demo_danger 400 180 10],
            running = True, tick = 1, score = 0, draws = 16 \<rparr>"
  unfolding run_def spawnAll_demo
  by (simp add: turns_def loop_def resized_def stepOnce_def moveFood_def
      moveDanger_def agentStep_def steer_def steerGreedy_def seekBest_def foodScore_def
      dist_pt_def hypot_axis a_pos_def f_pos_def dampMove_def clamp_def contactF_iff contactD_iff
      Math_random_def demo_env_def demo_food_def demo_danger_def Let_def)

text \<open>
  Claim C1 as stated fails: with the same input fields on the same canvas, a run whose
  draws are all one half and a run whose draws are all zero spawn the agent at
  \<open>(400, 180)\<close> at rest and at \<open>(40, 40)\<close> with velocity \<open>(-0.8, -0.8)\<close>.
\<close>

theorem same_inputs_different_positions:
  "width demo_env = width zero_env \<and> height demo_env = height zero_env
   \<and> map_option (\<lambda>t. map (\<lambda>a. (a_x a, a_y a, a_vx a, a_vy a)) (agents t))
        (spawnAll demo_env demo_inputs demo_sim) = Some [(400, 180, 0, 0)]
   \<and> map_option (\<lambda>t. map (\<lambda>a. (a_x a, a_y a, a_vx a, a_vy a)) (agents t))
        (spawnAll zero_env demo_inputs demo_sim) = Some [(40, 40, - 0.8, - 0.8)]
   \<and> spawnAll demo_env demo_inputs demo_sim \<noteq> spawnAll zero_env demo_inputs demo_sim
   \<and> run demo_env demo_inputs demo_sim [] \<noteq> run zero_env demo_inputs demo_sim []"
  unfolding run_def spawnAll_demo spawnAll_zero
  by (simp add: demo_env_def zero_env_def turns_def)

text \<open>
  The run of one turn reads sixteen draws: the canvas whose draws differ from the
  seventeenth on gives the same run; the canvas whose draws are all zero gives a run
  with the same tick and the same types.
\<close>

theorem run_determined_by_draws_witness:
  "run demo_env demo_inputs demo_sim [(800, 360)] =
     Some \<lparr> agents = [\<lparr> a_x = 400, a_y = 180, a_vx = 0, a_vy = 0, a_type = greedy, a_wobble = 5,
                         a_score = 0 \<rparr>],
            foods = [],
            dangers = [demo_danger 400 180 10],
            running = True, tick = 1, score = 0, draws = 16 \<rparr>
   \<and> width demo_env = width late_env \<and> height demo_env = height late_env
   \<and> same_draws 16 demo_env late_env
   \<and> Math_random demo_env 16 \<noteq> Math_random late_env 16
   \<and> run late_env demo_inputs demo_sim [(800, 360)] =
     Some \<lparr> agents = [\<lparr> a_x = 400, a_y = 180, a_vx = 0, a_vy = 0, a_type = greedy, a_wobble = 5,
                         a_score = 0 \<rparr>],
            foods = [],
            dangers = [demo_danger 400 180 10],
            running = True, tick = 1, score = 0, draws = 16 \<rparr>
   \<and> run late_env demo_inputs demo_sim [] = run demo_env demo_inputs demo_sim []
   \<and> (\<exists>s2. run zero_env demo_inputs demo_sim [(800, 360)] = Some s2 \<and> tick s2 = 1
          \<and> map a_type (agents s2) = [greedy])"
proof -
  let ?X = "\<lparr> agents = [\<lparr> a_x = 400, a_y = 180, a_vx = 0, a_vy = 0, a_type = greedy,
                          a_wobble = 5, a_score = 0 \<rparr>],
            foods = [],
            dangers = [demo_danger 400 180 10],
            running = True, tick = 1, score = 0, draws = 16 \<rparr>"
  have sz: "width demo_env = width late_env" "height demo_env = height late_env"
    by (simp_all add: demo_env_def late_env_def)
  have sd: "same_draws 16 demo_env late_env"
    by (simp add: same_draws_def Math_random_def demo_env_def late_env_def)
  have ne: "Math_random demo_env 16 \<noteq> Math_random late_env 16"
    by (simp add: Math_random_def demo_env_def late_env_def)
  have "run demo_env demo_inputs demo_sim [(800, 360)] = Some ?X \<and> width demo_env = width late_env
      \<and> height demo_env = height late_env \<and> same_draws (draws ?X) demo_env late_env"
    using run_demo sz sd by simp
  from run_determined_by_draws [of demo_env demo_inputs demo_sim "[(800, 360)]" ?X late_env,
      THEN conjunct1, rule_format, OF this]
  have late: "run late_env demo_inputs demo_sim [(800, 360)] = Some ?X"
    and pre: "\<forall>m \<le> length [(800 :: real, 360 :: real)].
        run late_env demo_inputs demo_sim (take m [(800, 360)])
          = run demo_env demo_inputs demo_sim (take m [(800, 360)])"
    by blast+
  from pre [rule_format, of 0]
  have start: "run late_env demo_inputs demo_sim [] = run demo_env demo_inputs demo_sim []"
    by simp
  note Z = run_determined_by_draws [of demo_env demo_inputs demo_sim "[(800, 360)]" ?X zero_env]
  have "run zero_env demo_inputs demo_sim [(800, 360)] \<noteq> None"
    using Z [THEN conjunct2, THEN conjunct1] run_demo by simp
  then obtain s2 where s2: "run zero_env demo_inputs demo_sim [(800, 360)] = Some s2" by blast
  have "run demo_env demo_inputs demo_sim [(800, 360)] = Some ?X
      \<and> run zero_env demo_inputs demo_sim [(800, 360)] = Some s2"
    using run_demo s2 by simp
  from run_determined_by_draws [of demo_env demo_inputs demo_sim "[(800, 360)]" ?X zero_env s2,
      THEN conjunct2, THEN conjunct2, THEN conjunct1, rule_format, OF this]
  have "tick s2 = 1" "map a_type (agents s2) = [greedy]" by simp_all
  with s2 have zero: "\<exists>s2. run zero_env demo_inputs demo_sim [(800, 360)] = Some s2 \<and> tick s2 = 1
          \<and> map a_type (agents s2) = [greedy]"
    by (intro exI [of _ s2]) simp
  show ?thesis
    by (intro conjI run_demo sz sd ne late start zero)
qed

subsection \<open>The message router\<close>

text \<open>
  The admission loop never spends more than the budget it is given, admits nothing on a
  budget of zero, and everything on a budget that covers all.
\<close>

lemma cost_pos: "0 < cost m"
  using Rep_bit_size [of "bits m"] by (simp add: cost_def)

lemma cost_demo_msg: "0 < b \<Longrightarrow> cost (demo_msg s i b) = b"
  by (simp add: cost_def demo_msg_def Abs_bit_size_inverse)

lemma admit_within_budget: "sum_list (map cost (admit remaining ms)) \<le> remaining"
proof (induction ms arbitrary: remaining)
  case Nil
  then show ?case by simp
next
  case (Cons m ms)
  show ?case
  proof (cases "cost m > remaining")
    case True
    then show ?thesis by simp
  next
    case False
    with Cons.IH [of "remaining - cost m"] show ?thesis by simp
  qed
qed

lemma admit_nothing: "admit 0 ms = []"
  using cost_pos by (cases ms) simp_all

lemma admit_everything: "sum_list (map cost ms) \<le> remaining \<Longrightarrow> admit remaining ms = ms"
  by (induction ms arbitrary: remaining) simp_all

lemma cost_insort: "sum_list (map cost (insort_key k m ms)) = cost m + sum_list (map cost ms)"
  by (induction ms) simp_all

lemma cost_ordered: "sum_list (map cost (ordered prio ms)) = sum_list (map cost ms)"
  unfolding ordered_def by (induction ms) (simp_all add: cost_insort)

text \<open>
  Claim C2, for the router as the spec describes it. The bits of the messages delivered
  in a tick never exceed the budget. With a budget of zero no message is delivered. With
  a budget of at least the sum of the candidates' sizes every candidate is delivered: the
  delivered messages are the candidates, as many and the same, in the order of priority.
\<close>

theorem router_budget:
  "sum_list (map cost (route prio bandwidth_bits candidates)) \<le> bandwidth_bits
   \<and> length (route prio 0 candidates) = 0
   \<and> (sum_list (map cost candidates) \<le> bandwidth_bits \<longrightarrow>
        length (route prio bandwidth_bits candidates) = length candidates
        \<and> mset (route prio bandwidth_bits candidates) = mset candidates
        \<and> route prio bandwidth_bits candidates = ordered prio candidates)"
proof (intro conjI impI)
  show "sum_list (map cost (route prio bandwidth_bits candidates)) \<le> bandwidth_bits"
    unfolding route_def by (rule admit_within_budget)
  show "length (route prio 0 candidates) = 0"
    unfolding route_def by (simp add: admit_nothing)
  assume all: "sum_list (map cost candidates) \<le> bandwidth_bits"
  then show eq: "route prio bandwidth_bits candidates = ordered prio candidates"
    unfolding route_def by (simp add: admit_everything cost_ordered)
  show "length (route prio bandwidth_bits candidates) = length candidates"
    unfolding eq by (simp add: ordered_def)
  show "mset (route prio bandwidth_bits candidates) = mset candidates"
    unfolding eq by (simp add: ordered_def)
qed

text \<open>
  Two candidates of 8 and 16 bits: a budget of 0 delivers none, a budget of 24 both, the
  one of the higher score first, and a budget of 20 only that one.
\<close>

theorem router_budget_witness:
  "sum_list (map cost [demo_msg 1 2 8, demo_msg 2 5 16]) = 24
   \<and> route importance 0 [demo_msg 1 2 8, demo_msg 2 5 16] = []
   \<and> route importance 24 [demo_msg 1 2 8, demo_msg 2 5 16] = [demo_msg 2 5 16, demo_msg 1 2 8]
   \<and> length (route importance 24 [demo_msg 1 2 8, demo_msg 2 5 16]) = 2
   \<and> sum_list (map cost (route importance 20 [demo_msg 1 2 8, demo_msg 2 5 16])) \<le> 20
   \<and> route importance 20 [demo_msg 1 2 8, demo_msg 2 5 16] = [demo_msg 2 5 16]"
proof -
  let ?ms = "[demo_msg 1 2 8, demo_msg 2 5 16]"
  note inst = router_budget [of importance _ ?ms]
  have sum: "sum_list (map cost ?ms) = 24" by (simp add: cost_demo_msg)
  then have tot: "sum_list (map cost ?ms) \<le> 24" by simp
  have ord: "ordered importance ?ms = [demo_msg 2 5 16, demo_msg 1 2 8]"
    by (simp add: ordered_def demo_msg_def)
  have "length (route importance 0 ?ms) = 0"
    by (rule inst [of 0, THEN conjunct2, THEN conjunct1])
  then have z: "route importance 0 ?ms = []" by (simp only: length_0_conv)
  note full = inst [of 24, THEN conjunct2, THEN conjunct2, rule_format, OF tot]
  have f: "route importance 24 ?ms = [demo_msg 2 5 16, demo_msg 1 2 8]"
    using full [THEN conjunct2, THEN conjunct2] by (simp only: ord)
  have l: "length (route importance 24 ?ms) = 2"
    using full [THEN conjunct1] by simp
  have b: "sum_list (map cost (route importance 20 ?ms)) \<le> 20"
    by (rule inst [of 20, THEN conjunct1])
  have p: "route importance 20 ?ms = [demo_msg 2 5 16]"
    unfolding route_def ord by (simp add: cost_demo_msg)
  from sum z f l b p show ?thesis by blast
qed

end
